theory Spec2Isabelle
  imports Complex_Main
begin

section \<open>The simplex tableau (Algorithm 16.4), embedded from the notebook\<close>

text \<open>
  The three routines of the notebook: \<open>simplexTableau\<close> decides the next step on a
  tableau (the specification calls it \<open>selectPivot\<close>), \<open>pivoting\<close> performs a pivot
  (\<open>applyPivot\<close>) and \<open>simplexAlgorithmTableau\<close> is the loop over both
  (\<open>runSimplex\<close>).

  The notebook works on numpy arrays of 64-bit floats.  The routines are embedded twice.
  First over the reals (\<open>simplexTableau\<close>, \<open>pivoting\<close>,
  \<open>simplexAlgorithmTableau\<close>): a tableau is a list of rows of real numbers, and a
  statement about these definitions is a statement about exact arithmetic.  Then over a
  type of floats with rounding to nearest, overflow to \<open>inf\<close> and \<open>nan\<close>
  (\<open>simplexTableau64\<close>, \<open>pivoting64\<close>, \<open>simplexAlgorithmTableau64\<close>): a statement
  about these is a statement about what numpy computes.  A numpy array is rectangular by
  type; a list of rows is not, so rectangularity is a predicate.
\<close>

type_synonym tableau = "real list list"

text \<open>\<open>tableau.shape\<close>: the number of rows and the number of columns.\<close>

definition nrows :: "tableau \<Rightarrow> nat" where
  "nrows t = length t"

definition ncols :: "tableau \<Rightarrow> nat" where
  "ncols t = (case t of [] \<Rightarrow> 0 | r # _ \<Rightarrow> length r)"

definition rectangular :: "tableau \<Rightarrow> bool" where
  "rectangular t = list_all (\<lambda>r. length r = ncols t) t"

text \<open>
  The exceptions the three routines can raise.  \<open>InvalidPivot\<close> is the plain
  \<open>Exception\<close> that \<open>pivoting\<close> raises itself; the others are raised by numpy or by
  the interpreter (an index out of bounds, \<open>argmin\<close> of an empty sequence, a comparison
  of \<open>None\<close> with an integer).
\<close>

datatype error = InvalidPivot | IndexError | ValueError | TypeError

text \<open>A step length: a real number or \<open>np.inf\<close>.\<close>

datatype step = Finite real | Infinity

text \<open>The order of the floats on steps: \<open>np.inf\<close> is above every real.\<close>

instantiation step :: linorder
begin

fun less_eq_step :: "step \<Rightarrow> step \<Rightarrow> bool" where
  "less_eq_step (Finite a) (Finite b) = (a \<le> b)"
| "less_eq_step (Finite a) Infinity = True"
| "less_eq_step Infinity (Finite b) = False"
| "less_eq_step Infinity Infinity = True"

fun less_step :: "step \<Rightarrow> step \<Rightarrow> bool" where
  "less_step (Finite a) (Finite b) = (a < b)"
| "less_step (Finite a) Infinity = True"
| "less_step Infinity (Finite b) = False"
| "less_step Infinity Infinity = False"

instance
proof
  fix x y z :: step
  show "(x < y) = (x \<le> y \<and> \<not> y \<le> x)"
    by (cases x; cases y) auto
  show "x \<le> x"
    by (cases x) auto
  show "x \<le> y \<Longrightarrow> y \<le> z \<Longrightarrow> x \<le> z"
    by (cases x; cases y; cases z) auto
  show "x \<le> y \<Longrightarrow> y \<le> x \<Longrightarrow> x = y"
    by (cases x; cases y) auto
  show "x \<le> y \<or> y \<le> x"
    by (cases x; cases y) auto
qed

end

text \<open>
  \<open>np.argmax\<close> and \<open>np.argmin\<close>: a scan from the left that keeps the first
  position of the extreme value; both raise \<open>ValueError\<close> on an empty array.
\<close>

fun argmax_scan :: "nat \<Rightarrow> 'a::linorder \<Rightarrow> nat \<Rightarrow> 'a list \<Rightarrow> nat" where
  "argmax_scan best bv i [] = best"
| "argmax_scan best bv i (x # xs) =
     (if bv < x then argmax_scan i x (Suc i) xs else argmax_scan best bv (Suc i) xs)"

definition argmax :: "'a::linorder list \<Rightarrow> error + nat" where
  "argmax bs = (case bs of [] \<Rightarrow> Inl ValueError | b # bs' \<Rightarrow> Inr (argmax_scan 0 b 1 bs'))"

fun argmin_scan :: "nat \<Rightarrow> 'a::linorder \<Rightarrow> nat \<Rightarrow> 'a list \<Rightarrow> nat" where
  "argmin_scan best bv i [] = best"
| "argmin_scan best bv i (x # xs) =
     (if x < bv then argmin_scan i x (Suc i) xs else argmin_scan best bv (Suc i) xs)"

definition argmin :: "'a::linorder list \<Rightarrow> error + nat" where
  "argmin ss = (case ss of [] \<Rightarrow> Inl ValueError | s # ss' \<Rightarrow> Inr (argmin_scan 0 s 1 ss'))"

subsection \<open>One iteration: \<open>simplexTableau\<close>\<close>

text \<open>
  The result is the tuple \<open>p, q, opt, bounded\<close> of the source:
  \<open>(None, None, True, True)\<close> for an optimal tableau,
  \<open>(None, None, False, False)\<close> for an unbounded direction and
  \<open>(Some p, Some q, False, True)\<close> for a pivot at column \<open>p\<close> and row \<open>q\<close>.
  \<open>tableau[-1, :-1]\<close> raises \<open>IndexError\<close> on an array without rows.
\<close>

definition simplexTableau :: "tableau \<Rightarrow> error + (int option \<times> int option \<times> bool \<times> bool)" where
  "simplexTableau tableau =
     (let m = nrows tableau - 1 in
      if tableau = [] then Inl IndexError
      else
        let reducedCost = butlast (last tableau);
            negativeReducedCost = map (\<lambda>c. c < 0) reducedCost
        in if \<not> list_ex (\<lambda>b. b) negativeReducedCost then Inr (None, None, True, True)
           else
             (case argmax negativeReducedCost of
                Inl e \<Rightarrow> Inl e
              | Inr p \<Rightarrow>
                  (let xb = map last (butlast tableau);
                       minusd = map (\<lambda>r. r ! p) (butlast tableau);
                       steps = map (\<lambda>k. if minusd ! k > 0 then Finite (xb ! k / minusd ! k)
                                         else Infinity) [0..<m]
                   in (case argmin steps of
                         Inl e \<Rightarrow> Inl e
                       | Inr q \<Rightarrow>
                           (let step = steps ! q
                            in if step = Infinity then Inr (None, None, False, False)
                               else Inr (Some (int p), Some (int q), False, True))))))"

subsection \<open>The pivot: \<open>pivoting\<close>\<close>

text \<open>\<open>np.finfo(float).eps\<close>, the machine epsilon of a 64-bit float.\<close>

definition eps :: real where
  "eps = 1 / 2 ^ 52"

text \<open>
  numpy reads an index \<open>i\<close> of an axis of size \<open>n\<close> as \<open>i\<close> when \<open>0 \<le> i < n\<close>, as
  \<open>n + i\<close> when \<open>-n \<le> i < 0\<close>, and raises \<open>IndexError\<close> otherwise.
\<close>

definition np_index :: "nat \<Rightarrow> int \<Rightarrow> error + nat" where
  "np_index n i =
     (if 0 \<le> i \<and> i < int n then Inr (nat i)
      else if - int n \<le> i \<and> i < 0 then Inr (nat (int n + i))
      else Inl IndexError)"

text \<open>
  The source checks \<open>q >= m\<close> and \<open>p >= n\<close> against the whole shape (the objective row
  and the right-hand side column included) and does not check for negative indices, which
  numpy then wraps.  The new array is filled row by row: row \<open>q\<close> first, then every row
  of \<open>set(range(m)) - {q}\<close>; for a negative \<open>q\<close> that set is the whole of
  \<open>range(m)\<close>, so the wrapped pivot row is overwritten by its own elimination.
\<close>

definition pivoting :: "tableau \<Rightarrow> int \<Rightarrow> int \<Rightarrow> error + tableau" where
  "pivoting tableau p q =
     (let m = nrows tableau; n = ncols tableau in
      if q \<ge> int m then Inl InvalidPivot
      else if p \<ge> int n then Inl InvalidPivot
      else
        case np_index m q of
          Inl e \<Rightarrow> Inl e
        | Inr qi \<Rightarrow>
            (case np_index n p of
               Inl e \<Rightarrow> Inl e
             | Inr pj \<Rightarrow>
                 let thepivot = tableau ! qi ! pj in
                 if \<bar>thepivot\<bar> < eps then Inl InvalidPivot
                 else
                   let thepivotrow = tableau ! qi in
                   Inr (map (\<lambda>i. if int i = q then map (\<lambda>x. x / thepivot) (tableau ! qi)
                                  else map2 (\<lambda>a b. a - tableau ! i ! pj * b / thepivot)
                                         (tableau ! i) thepivotrow)
                          [0..<m])))"

subsection \<open>The driver: \<open>simplexAlgorithmTableau\<close>\<close>

text \<open>
  The loop \<open>while True\<close> has no iteration bound, so the driver is a partial function:
  \<open>None\<close> stands for a run that never returns.  A returned value is an exception or
  the triple \<open>tableau, optimal, unbounded\<close>.  Calling \<open>pivoting\<close> with \<open>None\<close> for
  an index would raise \<open>TypeError\<close> at \<open>q >= m\<close>.
\<close>

partial_function (option) simplexAlgorithmTableau ::
  "tableau \<Rightarrow> (error + (tableau \<times> bool \<times> bool)) option" where
  "simplexAlgorithmTableau tableau =
     (case simplexTableau tableau of
        Inl e \<Rightarrow> Some (Inl e)
      | Inr (colPivot, rowPivot, optimal, bounded) \<Rightarrow>
          if optimal then Some (Inr (tableau, True, False))
          else if \<not> bounded then Some (Inr (tableau, False, True))
          else
            (case (colPivot, rowPivot) of
               (Some p, Some q) \<Rightarrow>
                 (case pivoting tableau p q of
                    Inl e \<Rightarrow> Some (Inl e)
                  | Inr newtableau \<Rightarrow> simplexAlgorithmTableau newtableau)
             | _ \<Rightarrow> Some (Inl TypeError)))"

subsection \<open>\<open>pivoting\<close> on a store of arrays\<close>

text \<open>
  The source allocates its result with \<open>np.empty\<close> and fills it row by row, reading
  the input array (and the view \<open>thepivotrow\<close> of it) while it writes.  To state that
  the input array is left as it was, the arrays live in a store and a variable holds an
  address, a position in the store.  \<open>np.empty\<close> yields a new array whose entries are
  whatever the memory held: \<open>junk\<close>.
\<close>

type_synonym store = "tableau list"

definition set_row :: "store \<Rightarrow> nat \<Rightarrow> nat \<Rightarrow> real list \<Rightarrow> store" where
  "set_row s a i row = s[a := (s ! a)[i := row]]"

definition pivoting_store :: "tableau \<Rightarrow> store \<Rightarrow> nat \<Rightarrow> int \<Rightarrow> int \<Rightarrow> error + (store \<times> nat)" where
  "pivoting_store junk s tableau p q =
     (let m = nrows (s ! tableau); n = ncols (s ! tableau) in
      if q \<ge> int m then Inl InvalidPivot
      else if p \<ge> int n then Inl InvalidPivot
      else
        case np_index m q of
          Inl e \<Rightarrow> Inl e
        | Inr qi \<Rightarrow>
            (case np_index n p of
               Inl e \<Rightarrow> Inl e
             | Inr pj \<Rightarrow>
                 let thepivot = s ! tableau ! qi ! pj in
                 if \<bar>thepivot\<bar> < eps then Inl InvalidPivot
                 else
                   let newtableau = length s;
                       s1 = s @ [junk];
                       s2 = set_row s1 newtableau qi
                              (map (\<lambda>x. x / thepivot) (s1 ! tableau ! qi));
                       s3 = fold (\<lambda>i st. set_row st newtableau i
                                     (map2 (\<lambda>a b. a - st ! tableau ! i ! pj * b / thepivot)
                                        (st ! tableau ! i) (st ! tableau ! qi)))
                              (filter (\<lambda>i. int i \<noteq> q) [0..<m]) s2
                   in Inr (s3, newtableau)))"

subsection \<open>The routines in 64-bit floating point\<close>

text \<open>
  A 64-bit float: a real number (one that the format represents), an infinity or a NaN.
  The sign of a zero is left out: the routines never divide by a zero (a ratio is taken
  only for \<open>minusd[k] > 0\<close>, and a pivot of magnitude below the machine epsilon is
  refused), and every comparison reads both zeros alike.
\<close>

datatype f64 = Num real | PosInf | NegInf | NaN

text \<open>
  Rounding to the nearest float, ties to the even significand: the exponent of \<open>x\<close>
  (not below that of the subnormal numbers) fixes the spacing \<open>ulp\<close> of the floats
  around \<open>x\<close>; a result of magnitude \<open>2^1024\<close> or more is an infinity.
\<close>

definition round_even :: "real \<Rightarrow> int" where
  "round_even x =
     (let f = \<lfloor>x\<rfloor>; d = x - of_int f
      in if d < 1 / 2 then f else if d > 1 / 2 then f + 1 else if even f then f else f + 1)"

definition overflow_bound :: real where
  "overflow_bound = 2 ^ 1024"

definition round64 :: "real \<Rightarrow> f64" where
  "round64 x =
     (if x = 0 then Num 0
      else
        let e = max \<lfloor>log 2 \<bar>x\<bar>\<rfloor> (- 1022);
            ulp = 2 powr of_int (e - 52);
            y = of_int (round_even (x / ulp)) * ulp
        in if overflow_bound \<le> \<bar>y\<bar> then (if 0 < x then PosInf else NegInf) else Num y)"

text \<open>
  The operations of the routines on floats: the comparisons \<open><\<close> and \<open><=\<close> (false
  with a NaN on either side), \<open>np.abs\<close>, and \<open>*\<close>, \<open>-\<close>, \<open>/\<close>, which round
  the exact result and follow the rules for infinities and NaN.
\<close>

fun f_lt :: "f64 \<Rightarrow> f64 \<Rightarrow> bool" where
  "f_lt NaN _ = False"
| "f_lt _ NaN = False"
| "f_lt (Num a) (Num b) = (a < b)"
| "f_lt (Num a) PosInf = True"
| "f_lt (Num a) NegInf = False"
| "f_lt PosInf _ = False"
| "f_lt NegInf NegInf = False"
| "f_lt NegInf _ = True"

fun f_le :: "f64 \<Rightarrow> f64 \<Rightarrow> bool" where
  "f_le NaN _ = False"
| "f_le _ NaN = False"
| "f_le (Num a) (Num b) = (a \<le> b)"
| "f_le (Num a) PosInf = True"
| "f_le (Num a) NegInf = False"
| "f_le NegInf _ = True"
| "f_le PosInf PosInf = True"
| "f_le PosInf _ = False"

fun f_abs :: "f64 \<Rightarrow> f64" where
  "f_abs NaN = NaN"
| "f_abs PosInf = PosInf"
| "f_abs NegInf = PosInf"
| "f_abs (Num a) = Num \<bar>a\<bar>"

fun f_mul :: "f64 \<Rightarrow> f64 \<Rightarrow> f64" where
  "f_mul NaN _ = NaN"
| "f_mul _ NaN = NaN"
| "f_mul (Num a) (Num b) = round64 (a * b)"
| "f_mul (Num a) PosInf = (if a = 0 then NaN else if 0 < a then PosInf else NegInf)"
| "f_mul (Num a) NegInf = (if a = 0 then NaN else if 0 < a then NegInf else PosInf)"
| "f_mul PosInf (Num b) = (if b = 0 then NaN else if 0 < b then PosInf else NegInf)"
| "f_mul NegInf (Num b) = (if b = 0 then NaN else if 0 < b then NegInf else PosInf)"
| "f_mul PosInf PosInf = PosInf"
| "f_mul PosInf NegInf = NegInf"
| "f_mul NegInf PosInf = NegInf"
| "f_mul NegInf NegInf = PosInf"

fun f_sub :: "f64 \<Rightarrow> f64 \<Rightarrow> f64" where
  "f_sub NaN _ = NaN"
| "f_sub _ NaN = NaN"
| "f_sub (Num a) (Num b) = round64 (a - b)"
| "f_sub (Num a) PosInf = NegInf"
| "f_sub (Num a) NegInf = PosInf"
| "f_sub PosInf PosInf = NaN"
| "f_sub PosInf _ = PosInf"
| "f_sub NegInf NegInf = NaN"
| "f_sub NegInf _ = NegInf"

fun f_div :: "f64 \<Rightarrow> f64 \<Rightarrow> f64" where
  "f_div NaN _ = NaN"
| "f_div _ NaN = NaN"
| "f_div (Num a) (Num b) =
     (if b = 0 then (if a = 0 then NaN else if 0 < a then PosInf else NegInf)
      else round64 (a / b))"
| "f_div (Num a) _ = Num 0"
| "f_div PosInf (Num b) = (if b < 0 then NegInf else PosInf)"
| "f_div NegInf (Num b) = (if b < 0 then PosInf else NegInf)"
| "f_div _ _ = NaN"

text \<open>
  The order in which \<open>np.argmin\<close> reads floats: a NaN is minimal (the first NaN wins),
  the other values are in their numeric order.  It is used by \<open>argmin\<close> only; the
  comparisons of the routines are \<open>f_lt\<close>.
\<close>

instantiation f64 :: linorder
begin

fun less_eq_f64 :: "f64 \<Rightarrow> f64 \<Rightarrow> bool" where
  "less_eq_f64 NaN _ = True"
| "less_eq_f64 _ NaN = False"
| "less_eq_f64 NegInf _ = True"
| "less_eq_f64 _ NegInf = False"
| "less_eq_f64 (Num a) (Num b) = (a \<le> b)"
| "less_eq_f64 (Num a) PosInf = True"
| "less_eq_f64 PosInf (Num b) = False"
| "less_eq_f64 PosInf PosInf = True"

definition less_f64 :: "f64 \<Rightarrow> f64 \<Rightarrow> bool" where
  "less_f64 x y = (x \<le> y \<and> \<not> y \<le> x)"

instance
proof
  fix x y z :: f64
  show "(x < y) = (x \<le> y \<and> \<not> y \<le> x)"
    by (simp add: less_f64_def)
  show "x \<le> x"
    by (cases x) auto
  show "x \<le> y \<Longrightarrow> y \<le> z \<Longrightarrow> x \<le> z"
    by (cases x; cases y; cases z) auto
  show "x \<le> y \<Longrightarrow> y \<le> x \<Longrightarrow> x = y"
    by (cases x; cases y) auto
  show "x \<le> y \<or> y \<le> x"
    by (cases x; cases y) auto
qed

end

text \<open>
  The three routines on arrays of floats, statement by statement as on the reals, with
  the float operations.  \<open>steps[k]\<close> is \<open>np.inf\<close> itself when the ratio overflows.
  The arrays of the notebooks are arrays of 64-bit integers; \<open>pivoting\<close> returns an
  array of floats (\<open>np.empty\<close>), so from the second pass on the driver works on
  floats.  An array of integers is read here as the array of floats of the same values.
  \<open>simplexTableau\<close> computes the same on both (\<open>/\<close> converts its operands); so does
  \<open>pivoting\<close> as long as the entries are below \<open>2^53\<close> in magnitude and the product
  \<open>tableau[i][p] * thepivotrow\<close> stays within the 64-bit integers.  Beyond that the
  product on an array of integers wraps around, which these definitions do not describe.
\<close>

type_synonym tableau64 = "f64 list list"

definition nrows64 :: "tableau64 \<Rightarrow> nat" where
  "nrows64 t = length t"

definition ncols64 :: "tableau64 \<Rightarrow> nat" where
  "ncols64 t = (case t of [] \<Rightarrow> 0 | r # _ \<Rightarrow> length r)"

definition rectangular64 :: "tableau64 \<Rightarrow> bool" where
  "rectangular64 t = list_all (\<lambda>r. length r = ncols64 t) t"

definition simplexTableau64 ::
  "tableau64 \<Rightarrow> error + (int option \<times> int option \<times> bool \<times> bool)" where
  "simplexTableau64 tableau =
     (let m = nrows64 tableau - 1 in
      if tableau = [] then Inl IndexError
      else
        let reducedCost = butlast (last tableau);
            negativeReducedCost = map (\<lambda>c. f_lt c (Num 0)) reducedCost
        in if \<not> list_ex (\<lambda>b. b) negativeReducedCost then Inr (None, None, True, True)
           else
             (case argmax negativeReducedCost of
                Inl e \<Rightarrow> Inl e
              | Inr p \<Rightarrow>
                  (let xb = map last (butlast tableau);
                       minusd = map (\<lambda>r. r ! p) (butlast tableau);
                       steps = map (\<lambda>k. if f_lt (Num 0) (minusd ! k)
                                         then f_div (xb ! k) (minusd ! k) else PosInf) [0..<m]
                   in (case argmin steps of
                         Inl e \<Rightarrow> Inl e
                       | Inr q \<Rightarrow>
                           (let step = steps ! q
                            in if step = PosInf then Inr (None, None, False, False)
                               else Inr (Some (int p), Some (int q), False, True))))))"

definition pivoting64 :: "tableau64 \<Rightarrow> int \<Rightarrow> int \<Rightarrow> error + tableau64" where
  "pivoting64 tableau p q =
     (let m = nrows64 tableau; n = ncols64 tableau in
      if q \<ge> int m then Inl InvalidPivot
      else if p \<ge> int n then Inl InvalidPivot
      else
        case np_index m q of
          Inl e \<Rightarrow> Inl e
        | Inr qi \<Rightarrow>
            (case np_index n p of
               Inl e \<Rightarrow> Inl e
             | Inr pj \<Rightarrow>
                 let thepivot = tableau ! qi ! pj in
                 if f_lt (f_abs thepivot) (Num eps) then Inl InvalidPivot
                 else
                   let thepivotrow = tableau ! qi in
                   Inr (map (\<lambda>i. if int i = q then map (\<lambda>x. f_div x thepivot) (tableau ! qi)
                                  else map2 (\<lambda>a b. f_sub a (f_div (f_mul (tableau ! i ! pj) b) thepivot))
                                         (tableau ! i) thepivotrow)
                          [0..<m])))"

partial_function (option) simplexAlgorithmTableau64 ::
  "tableau64 \<Rightarrow> (error + (tableau64 \<times> bool \<times> bool)) option" where
  "simplexAlgorithmTableau64 tableau =
     (case simplexTableau64 tableau of
        Inl e \<Rightarrow> Some (Inl e)
      | Inr (colPivot, rowPivot, optimal, bounded) \<Rightarrow>
          if optimal then Some (Inr (tableau, True, False))
          else if \<not> bounded then Some (Inr (tableau, False, True))
          else
            (case (colPivot, rowPivot) of
               (Some p, Some q) \<Rightarrow>
                 (case pivoting64 tableau p q of
                    Inl e \<Rightarrow> Some (Inl e)
                  | Inr newtableau \<Rightarrow> simplexAlgorithmTableau64 newtableau)
             | _ \<Rightarrow> Some (Inl TypeError)))"

definition step64_of :: "tableau64 \<Rightarrow> nat \<Rightarrow> nat \<Rightarrow> f64" where
  "step64_of t p k =
     (if f_lt (Num 0) (t ! k ! p) then f_div (last (t ! k)) (t ! k ! p) else PosInf)"

definition wellformed64 :: "tableau64 \<Rightarrow> bool" where
  "wellformed64 t = (rectangular64 t \<and> 2 \<le> nrows64 t \<and> 2 \<le> ncols64 t)"

definition iteration64 :: "tableau64 \<Rightarrow> tableau64 option" where
  "iteration64 tableau =
     (case simplexTableau64 tableau of
        Inl e \<Rightarrow> None
      | Inr (colPivot, rowPivot, optimal, bounded) \<Rightarrow>
          if optimal then None
          else if \<not> bounded then None
          else
            (case (colPivot, rowPivot) of
               (Some p, Some q) \<Rightarrow>
                 (case pivoting64 tableau p q of
                    Inl e \<Rightarrow> None
                  | Inr newtableau \<Rightarrow> Some newtableau)
             | _ \<Rightarrow> None))"

fun iterations64 :: "nat \<Rightarrow> tableau64 \<Rightarrow> tableau64 option" where
  "iterations64 0 t = Some t"
| "iterations64 (Suc k) t = (case iteration64 t of None \<Rightarrow> None | Some t' \<Rightarrow> iterations64 k t')"

text \<open>
  Tableaux of finite floats on which a product or a ratio overflows: \<open>2^700\<close> and
  \<open>2^1023\<close> are floats, their square and the double of the second are not.
\<close>

definition big :: real where
  "big = 2 ^ 700"

definition huge :: real where
  "huge = 2 ^ 1023"

definition nan_costs :: tableau64 where
  "nan_costs =
     [[Num 1, Num (- big), Num 1, Num 0, Num 1],
      [Num 0, Num 1, Num 0, Num 1, Num 0],
      [Num (- big), Num 0, Num 0, Num 0, Num 0]]"

definition nan_costs_final :: tableau64 where
  "nan_costs_final =
     [[Num 1, Num 0, Num 1, Num big, Num 1],
      [Num 0, Num 1, Num 0, Num 1, Num 0],
      [NaN, NaN, NaN, PosInf, NaN]]"

definition ratio_overflow :: tableau64 where
  "ratio_overflow = [[Num (1 / 4), Num huge], [Num (- 1), Num 0]]"

definition ratios_overflow :: tableau64 where
  "ratios_overflow = [[Num (1 / 2), Num huge], [Num (1 / 4), Num huge], [Num (- 1), Num 0]]"

definition iteration_tableau64 :: tableau64 where
  "iteration_tableau64 =
     [[Num 1, Num (- 1), Num 1, Num 0, Num 2],
      [Num 0, Num 2, Num (- 1), Num 1, Num 4],
      [Num 0, Num (- 3), Num 2, Num 0, Num 4]]"


subsection \<open>Notions used to state the properties\<close>

text \<open>
  A well-formed tableau has \<open>m + 1 \<ge> 2\<close> rows and \<open>n + 1 \<ge> 2\<close> columns: rows
  \<open>0..m-1\<close> are the constraints, row \<open>m\<close> holds the reduced costs, column \<open>n\<close> the
  right-hand side.
\<close>

definition wellformed :: "tableau \<Rightarrow> bool" where
  "wellformed t = (rectangular t \<and> 2 \<le> nrows t \<and> 2 \<le> ncols t)"

text \<open>The entry \<open>steps[k]\<close> of the source for the entering column \<open>p\<close>.\<close>

definition step_of :: "tableau \<Rightarrow> nat \<Rightarrow> nat \<Rightarrow> step" where
  "step_of t p k = (if t ! k ! p > 0 then Finite (last (t ! k) / t ! k ! p) else Infinity)"

text \<open>
  One pass through the body of the driver's loop that reaches the assignment
  \<open>tableau = pivoting(...)\<close>, and \<open>k\<close> such passes in a row.
\<close>

definition iteration :: "tableau \<Rightarrow> tableau option" where
  "iteration tableau =
     (case simplexTableau tableau of
        Inl e \<Rightarrow> None
      | Inr (colPivot, rowPivot, optimal, bounded) \<Rightarrow>
          if optimal then None
          else if \<not> bounded then None
          else
            (case (colPivot, rowPivot) of
               (Some p, Some q) \<Rightarrow>
                 (case pivoting tableau p q of
                    Inl e \<Rightarrow> None
                  | Inr newtableau \<Rightarrow> Some newtableau)
             | _ \<Rightarrow> None))"

fun iterations :: "nat \<Rightarrow> tableau \<Rightarrow> tableau option" where
  "iterations 0 t = Some t"
| "iterations (Suc k) t = (case iteration t of None \<Rightarrow> None | Some t' \<Rightarrow> iterations k t')"

subsection \<open>The tableaux of the notebooks\<close>

text \<open>
  Exercise 1 and Exercise 3 of the notebook of the algorithm, the tableau that Exercise 1
  ends with, and the first tableau of the notebook of the single iteration.
\<close>

definition exercise1 :: tableau where
  "exercise1 =
     [[1, 2, 2, 1, 0, 0, 20],
      [2, 1, 2, 0, 1, 0, 20],
      [2, 2, 1, 0, 0, 1, 20],
      [-10, -12, -12, 0, 0, 0, 0]]"

definition exercise1_final :: tableau where
  "exercise1_final =
     [[0, 0, 1, 2 / 5, 2 / 5, - (3 / 5), 4],
      [1, 0, 0, - (3 / 5), 2 / 5, 2 / 5, 4],
      [0, 1, 0, 2 / 5, - (3 / 5), 2 / 5, 4],
      [0, 0, 0, 18 / 5, 8 / 5, 8 / 5, 136]]"

definition exercise3 :: tableau where
  "exercise3 = [[1, 0, 1], [0, -2, -3]]"

definition iteration_tableau :: tableau where
  "iteration_tableau = [[1, -1, 1, 0, 2], [0, 2, -1, 1, 4], [0, -3, 2, 0, 4]]"

text \<open>A well-formed tableau whose only candidate pivot is below the machine epsilon.\<close>

definition tiny_pivot :: tableau where
  "tiny_pivot = [[1 / 2 ^ 60, 1], [-1, 0]]"

section \<open>Facts about the scans\<close>

text \<open>
  The invariant of the \<open>argmin\<close> scan: \<open>pre\<close> is the part already read, \<open>best\<close>
  the first position of its least element.
\<close>

lemma argmin_scan_first_min:
  assumes "best < length pre"
    and "\<forall>j<length pre. pre ! best \<le> pre ! j"
    and "\<forall>j<best. pre ! best < pre ! j"
  shows "argmin_scan best (pre ! best) (length pre) xs < length (pre @ xs) \<and>
         (\<forall>j<length (pre @ xs).
             (pre @ xs) ! argmin_scan best (pre ! best) (length pre) xs \<le> (pre @ xs) ! j) \<and>
         (\<forall>j<argmin_scan best (pre ! best) (length pre) xs.
             (pre @ xs) ! argmin_scan best (pre ! best) (length pre) xs < (pre @ xs) ! j)"
  using assms
proof (induction xs arbitrary: pre best)
  case Nil
  then show ?case by simp
next
  case (Cons x xs)
  let ?pre = "pre @ [x]"
  show ?case
  proof (cases "x < pre ! best")
    case True
    have a: "length pre < length ?pre" by simp
    have b: "\<forall>j<length ?pre. ?pre ! length pre \<le> ?pre ! j"
    proof (intro allI impI)
      fix j assume "j < length ?pre"
      then consider "j < length pre" | "j = length pre" by fastforce
      then show "?pre ! length pre \<le> ?pre ! j"
      proof cases
        case 1
        with Cons.prems(2) True have "x \<le> pre ! j"
          by (meson less_le_not_le order_trans linear)
        with 1 show ?thesis by (simp add: nth_append)
      next
        case 2
        then show ?thesis by simp
      qed
    qed
    have c: "\<forall>j<length pre. ?pre ! length pre < ?pre ! j"
    proof (intro allI impI)
      fix j assume j: "j < length pre"
      with Cons.prems(2) True have "x < pre ! j"
        by (meson less_le_trans)
      with j show "?pre ! length pre < ?pre ! j" by (simp add: nth_append)
    qed
    from Cons.IH[of "length pre" ?pre, OF a b c] True show ?thesis
      by simp
  next
    case False
    have a: "best < length ?pre" using Cons.prems(1) by simp
    have e: "?pre ! best = pre ! best" using Cons.prems(1) by (simp add: nth_append)
    have b: "\<forall>j<length ?pre. ?pre ! best \<le> ?pre ! j"
    proof (intro allI impI)
      fix j assume "j < length ?pre"
      then consider "j < length pre" | "j = length pre" by fastforce
      then show "?pre ! best \<le> ?pre ! j"
      proof cases
        case 1
        with Cons.prems(2) e show ?thesis by (simp add: nth_append)
      next
        case 2
        with False e show ?thesis by simp
      qed
    qed
    have c: "\<forall>j<best. ?pre ! best < ?pre ! j"
      using Cons.prems(1,3) e by (simp add: nth_append)
    from Cons.IH[of best ?pre, OF a b c] False e show ?thesis
      by simp
  qed
qed

lemma argmin_first_min:
  assumes "ss \<noteq> []"
  shows "\<exists>r. argmin ss = Inr r \<and> r < length ss \<and> (\<forall>j<length ss. ss ! r \<le> ss ! j) \<and>
             (\<forall>j<r. ss ! r < ss ! j)"
proof -
  from assms obtain s ss' where ss: "ss = s # ss'" by (cases ss) auto
  have "argmin_scan 0 ([s] ! 0) (length [s]) ss' < length ([s] @ ss') \<and>
         (\<forall>j<length ([s] @ ss').
             ([s] @ ss') ! argmin_scan 0 ([s] ! 0) (length [s]) ss' \<le> ([s] @ ss') ! j) \<and>
         (\<forall>j<argmin_scan 0 ([s] ! 0) (length [s]) ss'.
             ([s] @ ss') ! argmin_scan 0 ([s] ! 0) (length [s]) ss' < ([s] @ ss') ! j)"
    by (rule argmin_scan_first_min) simp_all
  then show ?thesis
    by (simp add: ss argmin_def)
qed

text \<open>The same invariant for the \<open>argmax\<close> scan, with the order reversed.\<close>

lemma argmax_scan_first_max:
  assumes "best < length pre"
    and "\<forall>j<length pre. pre ! j \<le> pre ! best"
    and "\<forall>j<best. pre ! j < pre ! best"
  shows "argmax_scan best (pre ! best) (length pre) xs < length (pre @ xs) \<and>
         (\<forall>j<length (pre @ xs).
             (pre @ xs) ! j \<le> (pre @ xs) ! argmax_scan best (pre ! best) (length pre) xs) \<and>
         (\<forall>j<argmax_scan best (pre ! best) (length pre) xs.
             (pre @ xs) ! j < (pre @ xs) ! argmax_scan best (pre ! best) (length pre) xs)"
  using assms
proof (induction xs arbitrary: pre best)
  case Nil
  then show ?case by simp
next
  case (Cons x xs)
  let ?pre = "pre @ [x]"
  show ?case
  proof (cases "pre ! best < x")
    case True
    have a: "length pre < length ?pre" by simp
    have c: "\<forall>j<length pre. ?pre ! j < ?pre ! length pre"
    proof (intro allI impI)
      fix j assume j: "j < length pre"
      with Cons.prems(2) True have "pre ! j < x"
        by (meson le_less_trans)
      with j show "?pre ! j < ?pre ! length pre" by (simp add: nth_append)
    qed
    have b: "\<forall>j<length ?pre. ?pre ! j \<le> ?pre ! length pre"
    proof (intro allI impI)
      fix j assume "j < length ?pre"
      then consider "j < length pre" | "j = length pre" by fastforce
      then show "?pre ! j \<le> ?pre ! length pre"
      proof cases
        case 1
        with c show ?thesis by (simp add: less_imp_le)
      next
        case 2
        then show ?thesis by simp
      qed
    qed
    from Cons.IH[of "length pre" ?pre, OF a b c] True show ?thesis
      by simp
  next
    case False
    have a: "best < length ?pre" using Cons.prems(1) by simp
    have e: "?pre ! best = pre ! best" using Cons.prems(1) by (simp add: nth_append)
    have b: "\<forall>j<length ?pre. ?pre ! j \<le> ?pre ! best"
    proof (intro allI impI)
      fix j assume "j < length ?pre"
      then consider "j < length pre" | "j = length pre" by fastforce
      then show "?pre ! j \<le> ?pre ! best"
      proof cases
        case 1
        with Cons.prems(2) e show ?thesis by (simp add: nth_append)
      next
        case 2
        with False e show ?thesis by simp
      qed
    qed
    have c: "\<forall>j<best. ?pre ! j < ?pre ! best"
      using Cons.prems(1,3) e by (simp add: nth_append)
    from Cons.IH[of best ?pre, OF a b c] False e show ?thesis
      by simp
  qed
qed

lemma argmax_first_max:
  assumes "bs \<noteq> []"
  shows "\<exists>r. argmax bs = Inr r \<and> r < length bs \<and> (\<forall>j<length bs. bs ! j \<le> bs ! r) \<and>
             (\<forall>j<r. bs ! j < bs ! r)"
proof -
  from assms obtain b bs' where bs: "bs = b # bs'" by (cases bs) auto
  have "argmax_scan 0 ([b] ! 0) (length [b]) bs' < length ([b] @ bs') \<and>
         (\<forall>j<length ([b] @ bs').
             ([b] @ bs') ! j \<le> ([b] @ bs') ! argmax_scan 0 ([b] ! 0) (length [b]) bs') \<and>
         (\<forall>j<argmax_scan 0 ([b] ! 0) (length [b]) bs'.
             ([b] @ bs') ! j < ([b] @ bs') ! argmax_scan 0 ([b] ! 0) (length [b]) bs')"
    by (rule argmax_scan_first_max) simp_all
  then show ?thesis
    by (simp add: bs argmax_def)
qed

text \<open>On booleans the first maximum is the first \<open>True\<close>, when there is one.\<close>

lemma argmax_first_True:
  assumes "list_ex (\<lambda>b. b) bs"
  shows "\<exists>r. argmax bs = Inr r \<and> r < length bs \<and> bs ! r \<and> (\<forall>j<r. \<not> bs ! j)"
proof -
  from assms have ne: "bs \<noteq> []" by auto
  from assms obtain k where k: "k < length bs" "bs ! k"
    by (auto simp: list_ex_iff in_set_conv_nth)
  from argmax_first_max[OF ne] obtain r where r: "argmax bs = Inr r" "r < length bs"
    "\<forall>j<length bs. bs ! j \<le> bs ! r" "\<forall>j<r. bs ! j < bs ! r"
    by blast
  from r(3) k have "bs ! r" by auto
  moreover from r(4) have "\<forall>j<r. \<not> bs ! j" by auto
  ultimately show ?thesis using r(1,2) by blast
qed

section \<open>Facts about \<open>simplexTableau\<close>\<close>

lemma simplexTableau_optimal:
  assumes "t \<noteq> []" and "\<forall>c\<in>set (butlast (last t)). \<not> c < 0"
  shows "simplexTableau t = Inr (None, None, True, True)"
  using assms by (simp add: simplexTableau_def list_ex_iff)

lemma steps_eq:
  assumes "m \<le> length t - 1"
  shows "map (\<lambda>k. if map (\<lambda>r. r ! p) (butlast t) ! k > 0
             then Finite (map last (butlast t) ! k / map (\<lambda>r. r ! p) (butlast t) ! k)
             else Infinity) [0..<m]
   = map (step_of t p) [0..<m]"
  using assms by (intro map_cong) (simp_all add: step_of_def nth_butlast)

lemma simplexTableau_choice:
  assumes "2 \<le> length t" and "\<exists>c\<in>set (butlast (last t)). c < 0"
  shows "\<exists>p q. p < length (butlast (last t)) \<and> butlast (last t) ! p < 0 \<and>
           (\<forall>j<p. \<not> butlast (last t) ! j < 0) \<and> q < length t - 1 \<and>
           (\<forall>k<length t - 1. step_of t p q \<le> step_of t p k) \<and>
           (\<forall>k<q. step_of t p q < step_of t p k) \<and>
           simplexTableau t =
             (if step_of t p q = Infinity then Inr (None, None, False, False)
              else Inr (Some (int p), Some (int q), False, True))"
proof -
  let ?rc = "butlast (last t)"
  let ?neg = "map (\<lambda>c. c < 0) ?rc"
  let ?m = "length t - 1"
  from assms(1) have ne: "t \<noteq> []" by auto
  from assms(2) have ex: "list_ex (\<lambda>b. b) ?neg" by (auto simp: list_ex_iff)
  from argmax_first_True[OF ex] obtain p where p: "argmax ?neg = Inr p" "p < length ?neg"
    "?neg ! p" "\<forall>j<p. \<not> ?neg ! j" by blast
  let ?steps = "map (step_of t p) [0..<?m]"
  from assms(1) have sne: "?steps \<noteq> []" by simp
  from argmin_first_min[OF sne] obtain q where q: "argmin ?steps = Inr q" "q < length ?steps"
    "\<forall>j<length ?steps. ?steps ! q \<le> ?steps ! j" "\<forall>j<q. ?steps ! q < ?steps ! j" by blast
  have q': "q < ?m" using q(2) by simp
  have sq: "?steps ! q = step_of t p q" using q' by simp
  have "simplexTableau t =
             (if step_of t p q = Infinity then Inr (None, None, False, False)
              else Inr (Some (int p), Some (int q), False, True))"
    using ne ex p(1) q(1) sq
    by (simp add: simplexTableau_def Let_def nrows_def steps_eq)
  moreover have "\<forall>k<?m. step_of t p q \<le> step_of t p k"
    using q(3) q' by simp
  moreover have "\<forall>k<q. step_of t p q < step_of t p k"
    using q(4) q' by simp
  moreover have "p < length ?rc" "?rc ! p < 0" "\<forall>j<p. \<not> ?rc ! j < 0"
    using p(2,3,4) by simp_all
  ultimately show ?thesis using q' by blast
qed

lemma rectangular_nth:
  assumes "rectangular t" and "k < length t"
  shows "length (t ! k) = ncols t"
  using assms by (simp add: rectangular_def list_all_length)

lemma reducedCost_nth:
  assumes "rectangular t" and "nrows t = m + 1" and "ncols t = n + 1"
  shows "length (butlast (last t)) = n"
    and "j < n \<Longrightarrow> butlast (last t) ! j = t ! m ! j"
proof -
  from assms(2) have ne: "t \<noteq> []" and m: "m < length t" "length t - 1 = m"
    by (auto simp: nrows_def)
  have l: "last t = t ! m" using ne m by (simp add: last_conv_nth)
  have len: "length (t ! m) = n + 1" using rectangular_nth[OF assms(1) m(1)] assms(3) by simp
  show "length (butlast (last t)) = n" using l len by simp
  show "j < n \<Longrightarrow> butlast (last t) ! j = t ! m ! j"
    using l len by (simp add: nth_butlast)
qed

lemma rhs_last:
  assumes "rectangular t" and "ncols t = n + 1" and "k < length t"
  shows "last (t ! k) = t ! k ! n"
proof -
  have "length (t ! k) = n + 1" using rectangular_nth[OF assms(1,3)] assms(2) by simp
  then show ?thesis by (cases "t ! k" rule: rev_cases) (simp_all add: nth_append)
qed

lemma step_of_Infinity_iff: "step_of t p k = Infinity \<longleftrightarrow> \<not> t ! k ! p > 0"
  by (simp add: step_of_def)

text \<open>
  The decision of \<open>simplexTableau\<close> on a tableau with \<open>m + 1\<close> rows and \<open>n + 1\<close>
  columns whose first negative reduced cost is in column \<open>p\<close>.
\<close>

lemma simplexTableau_first_negative:
  assumes rect: "rectangular t" and shape: "nrows t = m + 1" "ncols t = n + 1" and m: "1 \<le> m"
    and p: "p < n" "t ! m ! p < 0" "\<forall>j<p. \<not> t ! m ! j < 0"
  shows "\<exists>q<m. (\<forall>k<m. step_of t p q \<le> step_of t p k) \<and>
           (\<forall>k<q. step_of t p q < step_of t p k) \<and>
           simplexTableau t =
             (if step_of t p q = Infinity then Inr (None, None, False, False)
              else Inr (Some (int p), Some (int q), False, True))"
proof -
  note rc = reducedCost_nth[OF rect shape]
  have len: "2 \<le> length t" "length t - 1 = m" using shape(1) m by (simp_all add: nrows_def)
  have "butlast (last t) ! p \<in> set (butlast (last t))"
    using p(1) rc(1) by (intro nth_mem) simp
  with p rc have ex: "\<exists>c\<in>set (butlast (last t)). c < 0" by auto
  from simplexTableau_choice[OF len(1) ex] obtain p' q where
    c: "p' < length (butlast (last t))" "butlast (last t) ! p' < 0"
       "\<forall>j<p'. \<not> butlast (last t) ! j < 0" "q < length t - 1"
       "\<forall>k<length t - 1. step_of t p' q \<le> step_of t p' k"
       "\<forall>k<q. step_of t p' q < step_of t p' k"
       "simplexTableau t =
             (if step_of t p' q = Infinity then Inr (None, None, False, False)
              else Inr (Some (int p'), Some (int q), False, True))"
    by blast
  have "p' = p"
  proof (rule ccontr)
    assume "p' \<noteq> p"
    then consider "p' < p" | "p < p'" by fastforce
    then show False
    proof cases
      case 1
      with c(2) p(1,3) rc(2)[of p'] show False by auto
    next
      case 2
      with c(3) p(1,2) rc(2)[of p] show False by auto
    qed
  qed
  with c len(2) show ?thesis by auto
qed

lemma wellformedD:
  assumes "wellformed t" and "nrows t = m + 1" and "ncols t = n + 1"
  shows "rectangular t" and "1 \<le> m" and "1 \<le> n" and "m < length t" and "t \<noteq> []"
  using assms by (auto simp: wellformed_def nrows_def)

lemma simplexTableau_no_negative:
  assumes "rectangular t" and "nrows t = m + 1" and "ncols t = n + 1"
    and "\<forall>j<n. \<not> t ! m ! j < 0"
  shows "simplexTableau t = Inr (None, None, True, True)"
proof -
  note rc = reducedCost_nth[OF assms(1,2,3)]
  from assms(2) have ne: "t \<noteq> []" by (auto simp: nrows_def)
  have "\<forall>c\<in>set (butlast (last t)). \<not> c < 0"
  proof
    fix c assume "c \<in> set (butlast (last t))"
    then obtain j where "j < length (butlast (last t))" "c = butlast (last t) ! j"
      by (auto simp: in_set_conv_nth)
    with rc assms(4) show "\<not> c < 0" by auto
  qed
  with ne show ?thesis by (rule simplexTableau_optimal)
qed

lemma first_negative_exists:
  fixes t :: tableau
  assumes "j < n" and "t ! m ! j < 0"
  shows "\<exists>p<n. t ! m ! p < 0 \<and> (\<forall>i<p. \<not> t ! m ! i < 0)"
proof -
  define p where "p = (LEAST i. i < n \<and> t ! m ! i < 0)"
  have "p < n \<and> t ! m ! p < 0"
    unfolding p_def using assms by (intro LeastI[of "\<lambda>i. i < n \<and> t ! m ! i < 0" j]) simp
  then have p: "p < n" "t ! m ! p < 0" by simp_all
  have "\<forall>i<p. \<not> t ! m ! i < 0"
  proof (intro allI impI)
    fix i assume "i < p"
    then have "\<not> (i < n \<and> t ! m ! i < 0)" unfolding p_def by (rule not_less_Least)
    with \<open>i < p\<close> p(1) show "\<not> t ! m ! i < 0" by simp
  qed
  with p show ?thesis by blast
qed

text \<open>
  The two outcomes when the first negative reduced cost is in column \<open>p\<close>: a pivot in
  the first row of least ratio when the column has a positive entry in a constraint row,
  an unbounded direction otherwise.
\<close>

lemma simplexTableau_pivot:
  assumes rect: "rectangular t" and shape: "nrows t = m + 1" "ncols t = n + 1" and m: "1 \<le> m"
    and p: "p < n" "t ! m ! p < 0" "\<forall>j<p. \<not> t ! m ! j < 0"
    and pos: "i < m" "t ! i ! p > 0"
  shows "\<exists>q<m. simplexTableau t = Inr (Some (int p), Some (int q), False, True) \<and>
           t ! q ! p > 0 \<and>
           (\<forall>k<m. t ! k ! p > 0 \<longrightarrow> t ! q ! n / t ! q ! p \<le> t ! k ! n / t ! k ! p) \<and>
           (\<forall>k<q. t ! k ! p > 0 \<longrightarrow> t ! q ! n / t ! q ! p < t ! k ! n / t ! k ! p)"
proof -
  from simplexTableau_first_negative[OF rect shape m p] obtain q where
    q: "q < m" "\<forall>k<m. step_of t p q \<le> step_of t p k" "\<forall>k<q. step_of t p q < step_of t p k"
       "simplexTableau t =
             (if step_of t p q = Infinity then Inr (None, None, False, False)
              else Inr (Some (int p), Some (int q), False, True))"
    by blast
  have len: "length t = m + 1" using shape(1) by (simp add: nrows_def)
  have rhs: "\<And>k. k < m \<Longrightarrow> last (t ! k) = t ! k ! n"
    using rhs_last[OF rect shape(2)] len by simp
  have fin: "\<And>k. k < m \<Longrightarrow> t ! k ! p > 0 \<Longrightarrow> step_of t p k = Finite (t ! k ! n / t ! k ! p)"
    using rhs by (simp add: step_of_def)
  have "step_of t p q \<le> step_of t p i" using q(2) pos(1) by simp
  with fin[OF pos] have ninf: "step_of t p q \<noteq> Infinity" by auto
  then have qpos: "t ! q ! p > 0" by (simp add: step_of_Infinity_iff)
  note fq = fin[OF q(1) qpos]
  have "\<forall>k<m. t ! k ! p > 0 \<longrightarrow> t ! q ! n / t ! q ! p \<le> t ! k ! n / t ! k ! p"
  proof (intro allI impI)
    fix k assume k: "k < m" "t ! k ! p > 0"
    from q(2) k(1) have "step_of t p q \<le> step_of t p k" by simp
    with fq fin[OF k] show "t ! q ! n / t ! q ! p \<le> t ! k ! n / t ! k ! p" by simp
  qed
  moreover have "\<forall>k<q. t ! k ! p > 0 \<longrightarrow> t ! q ! n / t ! q ! p < t ! k ! n / t ! k ! p"
  proof (intro allI impI)
    fix k assume k: "k < q" "t ! k ! p > 0"
    from k(1) q(1) have km: "k < m" by simp
    from q(3) k(1) have "step_of t p q < step_of t p k" by simp
    with fq fin[OF km k(2)] show "t ! q ! n / t ! q ! p < t ! k ! n / t ! k ! p" by simp
  qed
  ultimately show ?thesis using q(1,4) ninf qpos by auto
qed

lemma simplexTableau_unbounded:
  assumes rect: "rectangular t" and shape: "nrows t = m + 1" "ncols t = n + 1" and m: "1 \<le> m"
    and p: "p < n" "t ! m ! p < 0" "\<forall>j<p. \<not> t ! m ! j < 0"
    and nopos: "\<forall>k<m. \<not> t ! k ! p > 0"
  shows "simplexTableau t = Inr (None, None, False, False)"
proof -
  from simplexTableau_first_negative[OF rect shape m p] obtain q where
    q: "q < m" "simplexTableau t =
             (if step_of t p q = Infinity then Inr (None, None, False, False)
              else Inr (Some (int p), Some (int q), False, True))"
    by blast
  from nopos q(1) have "step_of t p q = Infinity" by (simp add: step_of_Infinity_iff)
  with q(2) show ?thesis by simp
qed

lemma simplexTableau_unbounded_iff:
  assumes rect: "rectangular t" and shape: "nrows t = m + 1" "ncols t = n + 1" and m: "1 \<le> m"
  shows "simplexTableau t = Inr (None, None, False, False) \<longleftrightarrow>
           (\<exists>p<n. t ! m ! p < 0 \<and> (\<forall>j<p. \<not> t ! m ! j < 0) \<and> (\<forall>k<m. \<not> t ! k ! p > 0))"
proof
  assume unb: "simplexTableau t = Inr (None, None, False, False)"
  have "\<exists>j<n. t ! m ! j < 0"
  proof (rule ccontr)
    assume "\<not> (\<exists>j<n. t ! m ! j < 0)"
    then have "\<forall>j<n. \<not> t ! m ! j < 0" by blast
    from simplexTableau_no_negative[OF rect shape this] unb show False by simp
  qed
  then obtain j where "j < n" "t ! m ! j < 0" by blast
  from first_negative_exists[OF this] obtain p where
    p: "p < n" "t ! m ! p < 0" "\<forall>i<p. \<not> t ! m ! i < 0" by blast
  have "\<forall>k<m. \<not> t ! k ! p > 0"
  proof (intro allI impI notI)
    fix k assume "k < m" "t ! k ! p > 0"
    from simplexTableau_pivot[OF rect shape m p this] unb show False by auto
  qed
  with p show "\<exists>p<n. t ! m ! p < 0 \<and> (\<forall>j<p. \<not> t ! m ! j < 0) \<and> (\<forall>k<m. \<not> t ! k ! p > 0)"
    by blast
next
  assume "\<exists>p<n. t ! m ! p < 0 \<and> (\<forall>j<p. \<not> t ! m ! j < 0) \<and> (\<forall>k<m. \<not> t ! k ! p > 0)"
  then obtain p where "p < n" "t ! m ! p < 0" "\<forall>j<p. \<not> t ! m ! j < 0" "\<forall>k<m. \<not> t ! k ! p > 0"
    by blast
  then show "simplexTableau t = Inr (None, None, False, False)"
    by (rule simplexTableau_unbounded[OF rect shape m])
qed

text \<open>A rectangular tableau with two rows or more and a negative reduced cost is well-formed.\<close>

lemma wellformed_of_negative:
  assumes "rectangular t" and "2 \<le> length t" and "\<exists>c\<in>set (butlast (last t)). c < 0"
  shows "wellformed t"
proof -
  from assms(2) have ne: "t \<noteq> []" by auto
  from assms(3) have "butlast (last t) \<noteq> []" by auto
  then have "2 \<le> length (last t)" by (cases "last t" rule: rev_cases) (auto simp: Suc_le_eq)
  moreover have "length (last t) = ncols t"
    using rectangular_nth[OF assms(1), of "length t - 1"] ne by (simp add: last_conv_nth)
  ultimately show ?thesis using assms(1,2) by (simp add: wellformed_def nrows_def)
qed

section \<open>Facts about \<open>pivoting\<close>\<close>

lemma eps_pos: "0 < eps"
  by (simp add: eps_def)

lemma eps_le_one: "eps \<le> 1"
  by (simp add: eps_def)

lemma np_index_nat: "k < n \<Longrightarrow> np_index n (int k) = Inr k"
  by (simp add: np_index_def)

text \<open>
  The result of \<open>pivoting\<close> at a position inside the array whose entry is not below
  the machine epsilon.
\<close>

lemma pivoting_in_range:
  assumes "q < nrows t" and "p < ncols t" and "eps \<le> \<bar>t ! q ! p\<bar>"
  shows "pivoting t (int p) (int q) =
           Inr (map (\<lambda>i. if i = q then map (\<lambda>x. x / t ! q ! p) (t ! q)
                          else map2 (\<lambda>a b. a - t ! i ! p * b / t ! q ! p) (t ! i) (t ! q))
                  [0..<nrows t])"
  using assms by (simp add: pivoting_def Let_def np_index_nat)

lemma pivoting_small_pivot:
  assumes "q < nrows t" and "p < ncols t" and "\<bar>t ! q ! p\<bar> < eps"
  shows "pivoting t (int p) (int q) = Inl InvalidPivot"
  using assms by (simp add: pivoting_def Let_def np_index_nat)

lemma ncols_nth:
  assumes "t \<noteq> []"
  shows "ncols t = length (t ! 0)"
  using assms by (cases t) (simp_all add: ncols_def)

text \<open>Whatever the indices, a result of \<open>pivoting\<close> has the shape of its input.\<close>

lemma pivoting_shape:
  assumes "pivoting t p q = Inr t'" and "rectangular t"
  shows "nrows t' = nrows t" and "ncols t' = ncols t" and "rectangular t'"
proof -
  from assms(1) obtain qi pj where qi: "np_index (nrows t) q = Inr qi"
    and t': "t' = map (\<lambda>i. if int i = q then map (\<lambda>x. x / t ! qi ! pj) (t ! qi)
                          else map2 (\<lambda>a b. a - t ! i ! pj * b / t ! qi ! pj) (t ! i) (t ! qi))
                  [0..<nrows t]"
    by (auto simp: pivoting_def Let_def split: if_splits sum.splits)
  from qi have qi_lt: "qi < length t"
    by (auto simp: np_index_def nrows_def split: if_splits)
  show n: "nrows t' = nrows t" by (simp add: t' nrows_def)
  have rows: "\<And>i. i < length t \<Longrightarrow> length (t' ! i) = ncols t"
    using rectangular_nth[OF assms(2)] qi_lt by (simp add: t' nrows_def)
  have ne: "t \<noteq> []" "t' \<noteq> []" using qi_lt n by (auto simp: nrows_def)
  show c: "ncols t' = ncols t"
    using rows[of 0] ne ncols_nth[OF ne(2)] by simp
  show "rectangular t'"
    unfolding rectangular_def list_all_length using rows n c by (simp add: nrows_def)
qed

lemma pivoting_wellformed:
  assumes "pivoting t p q = Inr t'" and "wellformed t"
  shows "wellformed t'"
  using assms pivoting_shape[OF assms(1)] by (simp add: wellformed_def)

lemma map2_scaled_row:
  fixes c d :: real
  shows "map2 (\<lambda>a b. a - c * b / d) xs ys = map2 (\<lambda>a b. a - c * b) xs (map (\<lambda>x. x / d) ys)"
  by (simp add: zip_map2 split_def)

lemma map2_keep_left:
  assumes "length xs \<le> length ys"
  shows "map2 (\<lambda>a b. a) xs ys = xs"
  using assms by (simp add: split_def map_fst_zip_take)

text \<open>The rows and the pivot column after a pivot.\<close>

lemma pivoting_rows:
  assumes rect: "rectangular T" and q: "q < nrows T" and p: "p < ncols T"
    and piv: "eps \<le> \<bar>T ! q ! p\<bar>"
  shows "\<exists>T'. pivoting T (int p) (int q) = Inr T' \<and> nrows T' = nrows T \<and>
           T' ! q = map (\<lambda>x. x / T ! q ! p) (T ! q) \<and>
           (\<forall>i<nrows T. i \<noteq> q \<longrightarrow> T' ! i = map2 (\<lambda>a b. a - T ! i ! p * b) (T ! i) (T' ! q)) \<and>
           (\<forall>i<nrows T. T' ! i ! p = (if i = q then 1 else 0))"
proof -
  let ?T' = "map (\<lambda>i. if i = q then map (\<lambda>x. x / T ! q ! p) (T ! q)
                        else map2 (\<lambda>a b. a - T ! i ! p * b / T ! q ! p) (T ! i) (T ! q))
               [0..<nrows T]"
  have eq: "pivoting T (int p) (int q) = Inr ?T'" by (rule pivoting_in_range[OF q p piv])
  have nz: "T ! q ! p \<noteq> 0" using piv eps_pos by auto
  have len: "\<And>i. i < nrows T \<Longrightarrow> p < length (T ! i)"
    using rectangular_nth[OF rect] p by (simp add: nrows_def)
  have rq: "?T' ! q = map (\<lambda>x. x / T ! q ! p) (T ! q)" using q by simp
  have ri: "\<forall>i<nrows T. i \<noteq> q \<longrightarrow> ?T' ! i = map2 (\<lambda>a b. a - T ! i ! p * b) (T ! i) (?T' ! q)"
    using q by (simp add: map2_scaled_row)
  have col: "\<forall>i<nrows T. ?T' ! i ! p = (if i = q then 1 else 0)"
    using len q nz by simp
  show ?thesis using eq rq ri col by (intro exI[of _ ?T']) (simp add: nrows_def)
qed

lemma pivoting_again:
  assumes rect: "rectangular T" and q: "q < nrows T" and p: "p < ncols T"
    and piv: "eps \<le> \<bar>T ! q ! p\<bar>" and T': "pivoting T (int p) (int q) = Inr T'"
  shows "pivoting T' (int p) (int q) = Inr T'"
proof -
  from pivoting_rows[OF rect q p piv] T' have
    n: "nrows T' = nrows T" and col: "\<forall>i<nrows T. T' ! i ! p = (if i = q then 1 else 0)"
    by auto
  note sh = pivoting_shape[OF T' rect]
  have one: "T' ! q ! p = 1" using col q by simp
  have q': "q < nrows T'" and p': "p < ncols T'" using sh q p by simp_all
  have piv': "eps \<le> \<bar>T' ! q ! p\<bar>" using one eps_le_one by simp
  have lens: "\<And>i. i < nrows T \<Longrightarrow> length (T' ! i) = ncols T"
    using rectangular_nth[OF sh(3)] sh(1,2) by (simp add: nrows_def)
  have "map (\<lambda>i. if i = q then map (\<lambda>x. x / T' ! q ! p) (T' ! q)
                  else map2 (\<lambda>a b. a - T' ! i ! p * b / T' ! q ! p) (T' ! i) (T' ! q))
          [0..<nrows T'] = map (\<lambda>i. T' ! i) [0..<nrows T']"
  proof (rule map_cong[OF refl])
    fix i assume "i \<in> set [0..<nrows T']"
    then have i: "i < nrows T" using n by simp
    show "(if i = q then map (\<lambda>x. x / T' ! q ! p) (T' ! q)
           else map2 (\<lambda>a b. a - T' ! i ! p * b / T' ! q ! p) (T' ! i) (T' ! q)) = T' ! i"
    proof (cases "i = q")
      case True
      then show ?thesis using one by simp
    next
      case False
      then have "T' ! i ! p = 0" using col i by simp
      then show ?thesis using False one lens[OF i] lens[OF q] by (simp add: map2_keep_left)
    qed
  qed
  also have "\<dots> = T'" by (simp add: nrows_def map_nth)
  finally show ?thesis using pivoting_in_range[OF q' p' piv'] by simp
qed

section \<open>Facts about the driver\<close>

text \<open>
  The driver and the passes through its loop: a pass that pivots hands the run over to the
  new tableau; a pass that does not pivot returns at once.
\<close>

lemma driver_iteration:
  assumes "iteration t = Some t'"
  shows "simplexAlgorithmTableau t = simplexAlgorithmTableau t'"
  using assms
  by (subst simplexAlgorithmTableau.simps)
     (auto simp: iteration_def split: sum.splits prod.splits option.splits if_splits)

lemma driver_iterations:
  assumes "iterations k t = Some t'"
  shows "simplexAlgorithmTableau t = simplexAlgorithmTableau t'"
  using assms
proof (induction k arbitrary: t)
  case 0
  then show ?case by simp
next
  case (Suc k)
  then obtain t1 where t1: "iteration t = Some t1" "iterations k t1 = Some t'"
    by (auto split: option.splits)
  from driver_iteration[OF t1(1)] Suc.IH[OF t1(2)] show ?case by simp
qed

lemma driver_returns:
  assumes "simplexAlgorithmTableau t = Some r"
  shows "\<exists>k t'. iterations k t = Some t' \<and> iteration t' = None"
proof (rule simplexAlgorithmTableau.raw_induct
    [where P = "\<lambda>t r. \<exists>k t'. iterations k t = Some t' \<and> iteration t' = None", OF _ assms])
  fix run :: "tableau \<Rightarrow> (error + (tableau \<times> bool \<times> bool)) option" and t r
  assume IH: "\<And>x y. run x = Some y \<Longrightarrow> \<exists>k t'. iterations k x = Some t' \<and> iteration t' = None"
    and body: "(case simplexTableau t of
        Inl e \<Rightarrow> Some (Inl e)
      | Inr (colPivot, rowPivot, optimal, bounded) \<Rightarrow>
          if optimal then Some (Inr (t, True, False))
          else if \<not> bounded then Some (Inr (t, False, True))
          else
            (case (colPivot, rowPivot) of
               (Some p, Some q) \<Rightarrow>
                 (case pivoting t p q of
                    Inl e \<Rightarrow> Some (Inl e)
                  | Inr newtableau \<Rightarrow> run newtableau)
             | _ \<Rightarrow> Some (Inl TypeError))) = Some r"
  show "\<exists>k t'. iterations k t = Some t' \<and> iteration t' = None"
  proof (cases "iteration t")
    case None
    then have "iterations 0 t = Some t \<and> iteration t = None" by simp
    then show ?thesis by blast
  next
    case (Some t1)
    with body have "run t1 = Some r"
      by (auto simp: iteration_def split: sum.splits prod.splits option.splits if_splits)
    from IH[OF this] obtain k t' where "iterations k t1 = Some t'" "iteration t' = None"
      by blast
    with Some have "iterations (Suc k) t = Some t' \<and> iteration t' = None" by simp
    then show ?thesis by blast
  qed
qed

text \<open>What the driver returns in a pass that does not pivot.\<close>

lemma driver_last_pass:
  assumes "iteration t = None"
  shows "simplexAlgorithmTableau t =
           (case simplexTableau t of
              Inl e \<Rightarrow> Some (Inl e)
            | Inr (colPivot, rowPivot, optimal, bounded) \<Rightarrow>
                if optimal then Some (Inr (t, True, False))
                else if \<not> bounded then Some (Inr (t, False, True))
                else (case (colPivot, rowPivot) of
                        (Some p, Some q) \<Rightarrow> Some (Inl (projl (pivoting t p q)))
                      | _ \<Rightarrow> Some (Inl TypeError)))"
  using assms
  by (subst simplexAlgorithmTableau.simps)
     (auto simp: iteration_def split: sum.splits prod.splits option.splits if_splits)

lemma simplexTableau_one_row:
  assumes "length t = 1" and "\<exists>c\<in>set (butlast (last t)). c < 0"
  shows "simplexTableau t = Inl ValueError"
proof -
  from assms(1) have ne: "t \<noteq> []" by auto
  from assms(2) have ex: "list_ex (\<lambda>b. b) (map (\<lambda>c. c < 0) (butlast (last t)))"
    by (auto simp: list_ex_iff)
  from argmax_first_True[OF ex] obtain p where
    "argmax (map (\<lambda>c. c < 0) (butlast (last t))) = Inr p" by blast
  with ne ex assms(1) show ?thesis
    by (simp add: simplexTableau_def Let_def nrows_def argmin_def)
qed

text \<open>The three tuples that \<open>simplexTableau\<close> can return, and when.\<close>

lemma simplexTableau_results:
  assumes "simplexTableau t = Inr r"
  shows "r = (None, None, True, True) \<and> t \<noteq> [] \<and> (\<forall>c\<in>set (butlast (last t)). \<not> c < 0) \<or>
         r = (None, None, False, False) \<and> 2 \<le> length t \<and> (\<exists>c\<in>set (butlast (last t)). c < 0) \<or>
         (\<exists>p q. r = (Some (int p), Some (int q), False, True)) \<and> 2 \<le> length t \<and>
           (\<exists>c\<in>set (butlast (last t)). c < 0)"
proof -
  from assms have ne: "t \<noteq> []" by (auto simp: simplexTableau_def)
  show ?thesis
  proof (cases "\<exists>c\<in>set (butlast (last t)). c < 0")
    case False
    with simplexTableau_optimal[OF ne] assms ne show ?thesis by auto
  next
    case True
    have len: "2 \<le> length t"
    proof (rule ccontr)
      assume "\<not> 2 \<le> length t"
      moreover from ne have "length t \<noteq> 0" by simp
      ultimately have "length t = 1" by arith
      from simplexTableau_one_row[OF this True] assms show False by simp
    qed
    from simplexTableau_choice[OF len True] assms True len show ?thesis
      by (auto split: if_splits)
  qed
qed

lemma reducedCost_nonneg:
  fixes t :: tableau
  assumes "\<forall>c\<in>set (butlast (last t)). \<not> c < 0" and "j < length (last t) - 1"
  shows "0 \<le> last t ! j"
proof -
  from assms(2) have j: "j < length (butlast (last t))" by simp
  then have "butlast (last t) ! j \<in> set (butlast (last t))" by (rule nth_mem)
  with assms(1) j show ?thesis by (auto simp: nth_butlast)
qed

text \<open>A pass that pivots keeps the tableau rectangular and well-formed.\<close>

lemma iteration_pivoting:
  assumes "iteration t = Some t'"
  shows "\<exists>p q. simplexTableau t = Inr (Some p, Some q, False, True) \<and> pivoting t p q = Inr t'"
  using assms
  by (auto simp: iteration_def split: sum.splits prod.splits option.splits if_splits)

lemma iteration_rectangular:
  assumes "iteration t = Some t'" and "rectangular t"
  shows "rectangular t'"
  using iteration_pivoting[OF assms(1)] pivoting_shape(3)[OF _ assms(2)] by blast

lemma iterations_rectangular:
  assumes "iterations k t = Some t'" and "rectangular t"
  shows "rectangular t'"
  using assms
proof (induction k arbitrary: t)
  case 0
  then show ?case by simp
next
  case (Suc k)
  then obtain t1 where t1: "iteration t = Some t1" "iterations k t1 = Some t'"
    by (auto split: option.splits)
  from Suc.IH[OF t1(2) iteration_rectangular[OF t1(1) Suc.prems(2)]] show ?case .
qed

lemma iteration_wellformed:
  assumes "iteration t = Some t'" and "wellformed t"
  shows "wellformed t'"
  using iteration_pivoting[OF assms(1)] pivoting_wellformed[OF _ assms(2)] by blast

lemma iterations_wellformed:
  assumes "iterations k t = Some t'" and "wellformed t"
  shows "wellformed t'"
  using assms
proof (induction k arbitrary: t)
  case 0
  then show ?case by simp
next
  case (Suc k)
  then obtain t1 where t1: "iteration t = Some t1" "iterations k t1 = Some t'"
    by (auto split: option.splits)
  from Suc.IH[OF t1(2) iteration_wellformed[OF t1(1) Suc.prems(2)]] show ?case .
qed

text \<open>The last pass of a run that returns with status Unbounded.\<close>

lemma driver_unbounded:
  assumes "simplexAlgorithmTableau t = Some (Inr (t', False, True))"
  shows "\<exists>k. iterations k t = Some t' \<and> simplexTableau t' = Inr (None, None, False, False)"
proof -
  from driver_returns[OF assms] obtain k t'' where
    k: "iterations k t = Some t''" "iteration t'' = None" by blast
  from driver_iterations[OF k(1)] assms
  have run: "simplexAlgorithmTableau t'' = Some (Inr (t', False, True))" by simp
  from run driver_last_pass[OF k(2)] obtain r where r: "simplexTableau t'' = Inr r"
    by (auto split: sum.splits)
  from run driver_last_pass[OF k(2)] r simplexTableau_results[OF r]
  have "t'' = t'" and "r = (None, None, False, False)"
    by (auto split: if_splits)
  with k(1) r show ?thesis by auto
qed

section \<open>The notebooks' tableaux, evaluated\<close>

text \<open>The definitions that a run on a concrete tableau unfolds.\<close>

lemmas eval_defs = simplexTableau_def pivoting_def iteration_def nrows_def ncols_def
  argmax_def argmin_def np_index_def eps_def Let_def upt_conv_Cons

lemma exercise1_iterations: "iterations 3 exercise1 = Some exercise1_final"
  by (simp add: exercise1_def exercise1_final_def numeral_3_eq_3 eval_defs)

lemma exercise1_final_optimal: "simplexTableau exercise1_final = Inr (None, None, True, True)"
  by (simp add: exercise1_final_def eval_defs)

lemma exercise1_run:
  "simplexAlgorithmTableau exercise1 = Some (Inr (exercise1_final, True, False))"
proof -
  have "iteration exercise1_final = None"
    by (simp add: iteration_def exercise1_final_optimal)
  from driver_last_pass[OF this] have
    "simplexAlgorithmTableau exercise1_final = Some (Inr (exercise1_final, True, False))"
    by (simp add: exercise1_final_optimal)
  with driver_iterations[OF exercise1_iterations] show ?thesis by simp
qed

lemma exercise3_unbounded: "simplexTableau exercise3 = Inr (None, None, False, False)"
  by (simp add: exercise3_def eval_defs)

lemma exercise3_run:
  "simplexAlgorithmTableau exercise3 = Some (Inr (exercise3, False, True))"
proof -
  have "iteration exercise3 = None"
    by (simp add: iteration_def exercise3_unbounded)
  from driver_last_pass[OF this] show ?thesis
    by (simp add: exercise3_unbounded)
qed

lemma tiny_pivot_decision: "simplexTableau tiny_pivot = Inr (Some 0, Some 0, False, True)"
  by (simp add: tiny_pivot_def eval_defs)

lemma tiny_pivot_rejected: "pivoting tiny_pivot 0 0 = Inl InvalidPivot"
  by (simp add: tiny_pivot_def eval_defs)

lemma tiny_pivot_run: "simplexAlgorithmTableau tiny_pivot = Some (Inl InvalidPivot)"
proof -
  have "iteration tiny_pivot = None"
    by (simp add: iteration_def tiny_pivot_decision tiny_pivot_rejected)
  from driver_last_pass[OF this] show ?thesis
    by (simp add: tiny_pivot_decision tiny_pivot_rejected)
qed

lemma iteration_tableau_decision:
  "simplexTableau iteration_tableau = Inr (Some 1, Some 1, False, True)"
  by (simp add: iteration_tableau_def eval_defs)

lemma wellformed_exercise1: "wellformed exercise1"
  by (simp add: wellformed_def rectangular_def nrows_def ncols_def exercise1_def)

lemma wellformed_exercise3: "wellformed exercise3"
  by (simp add: wellformed_def rectangular_def nrows_def ncols_def exercise3_def)

lemma wellformed_iteration_tableau: "wellformed iteration_tableau"
  by (simp add: wellformed_def rectangular_def nrows_def ncols_def iteration_tableau_def)

lemma wellformed_tiny_pivot: "wellformed tiny_pivot"
  by (simp add: wellformed_def rectangular_def nrows_def ncols_def tiny_pivot_def)

section \<open>\<open>pivoting\<close> on the store and on values\<close>

lemma set_row_new: "set_row (s @ [x]) (length s) i row = s @ [x[i := row]]"
  by (simp add: set_row_def)

lemma fold_set_row_new:
  assumes "a < length s"
  shows "fold (\<lambda>i st. set_row st (length s) i (F (st ! a) i)) is (s @ [x]) =
           s @ [fold (\<lambda>i r. r[i := F (s ! a) i]) is x]"
  using assms by (induction "is" arbitrary: x) (simp_all add: set_row_new nth_append)

lemma fold_rows_nth:
  assumes "i < length x"
  shows "fold (\<lambda>i r. r[i := G i]) is x ! i = (if i \<in> set is then G i else x ! i)"
  using assms
proof (induction "is" arbitrary: x)
  case Nil
  then show ?case by simp
next
  case (Cons j "is")
  from Cons.prems have "i < length (x[j := G j])" by simp
  from Cons.IH[OF this] Cons.prems show ?case
    by (cases "i = j") simp_all
qed

lemma fold_rows_length: "length (fold (\<lambda>i r. r[i := G i]) is x) = length x"
  by (induction "is" arbitrary: x) simp_all

lemma np_index_of_nat:
  assumes "np_index m q = Inr qi" and "int i = q"
  shows "qi = i"
  using assms by (auto simp: np_index_def split: if_splits)

text \<open>
  \<open>pivoting\<close> on the store appends the array that \<open>pivoting\<close> computes from the input
  array and changes nothing else, whatever the fresh array held.
\<close>

lemma pivoting_store_refines:
  assumes a: "a < length s" and junk: "length junk = nrows (s ! a)"
  shows "pivoting_store junk s a p q =
           (case pivoting (s ! a) p q of
              Inl e \<Rightarrow> Inl e
            | Inr t' \<Rightarrow> Inr (s @ [t'], length s))"
proof (cases "pivoting (s ! a) p q")
  case (Inl e)
  then show ?thesis
    by (auto simp: pivoting_store_def pivoting_def Let_def split: if_splits sum.splits)
next
  case (Inr t')
  let ?t = "s ! a"
  from Inr obtain qi pj where qi: "np_index (nrows ?t) q = Inr qi"
    and pj: "np_index (ncols ?t) p = Inr pj"
    and chk: "\<not> q \<ge> int (nrows ?t)" "\<not> p \<ge> int (ncols ?t)" "\<not> \<bar>?t ! qi ! pj\<bar> < eps"
    and t': "t' = map (\<lambda>i. if int i = q then map (\<lambda>x. x / ?t ! qi ! pj) (?t ! qi)
                          else map2 (\<lambda>a b. a - ?t ! i ! pj * b / ?t ! qi ! pj) (?t ! i) (?t ! qi))
                  [0..<nrows ?t]"
    by (auto simp: pivoting_def Let_def split: if_splits sum.splits)
  let ?norm = "map (\<lambda>x. x / ?t ! qi ! pj) (?t ! qi)"
  let ?G = "\<lambda>i. map2 (\<lambda>a b. a - ?t ! i ! pj * b / ?t ! qi ! pj) (?t ! i) (?t ! qi)"
  let ?is = "filter (\<lambda>i. int i \<noteq> q) [0..<nrows ?t]"
  let ?x = "junk[qi := ?norm]"
  have s2: "set_row (s @ [junk]) (length s) qi (map (\<lambda>x. x / ?t ! qi ! pj) ((s @ [junk]) ! a ! qi))
              = s @ [?x]"
    using a by (simp add: set_row_new nth_append)
  have s3: "fold (\<lambda>i st. set_row st (length s) i
                 (map2 (\<lambda>a' b. a' - st ! a ! i ! pj * b / ?t ! qi ! pj) (st ! a ! i) (st ! a ! qi)))
              ?is (s @ [?x]) = s @ [fold (\<lambda>i r. r[i := ?G i]) ?is ?x]"
    by (rule fold_set_row_new[OF a, where F = "\<lambda>t i. map2 (\<lambda>a' b. a' - t ! i ! pj * b / ?t ! qi ! pj) (t ! i) (t ! qi)"])
  have "fold (\<lambda>i r. r[i := ?G i]) ?is ?x = t'"
  proof (rule nth_equalityI)
    show "length (fold (\<lambda>i r. r[i := ?G i]) ?is ?x) = length t'"
      using junk by (simp add: fold_rows_length t' nrows_def)
  next
    fix i assume "i < length (fold (\<lambda>i r. r[i := ?G i]) ?is ?x)"
    then have i: "i < nrows ?t" using junk by (simp add: fold_rows_length)
    then have ix: "i < length ?x" using junk by simp
    have nth: "fold (\<lambda>i r. r[i := ?G i]) ?is ?x ! i = (if i \<in> set ?is then ?G i else ?x ! i)"
      by (rule fold_rows_nth[OF ix])
    show "fold (\<lambda>i r. r[i := ?G i]) ?is ?x ! i = t' ! i"
    proof (cases "int i = q")
      case True
      from np_index_of_nat[OF qi True] have "qi = i" .
      with True i ix show ?thesis unfolding nth by (simp add: t')
    next
      case False
      with i ix show ?thesis unfolding nth by (simp add: t')
    qed
  qed
  with s2 s3 qi pj chk Inr show ?thesis
    by (simp add: pivoting_store_def Let_def)
qed

section \<open>Facts about a run on a well-formed tableau\<close>

text \<open>On a well-formed tableau \<open>simplexTableau\<close> raises nothing.\<close>

lemma simplexTableau_total:
  assumes "wellformed t"
  shows "\<exists>r. simplexTableau t = Inr r"
proof (cases "\<exists>c\<in>set (butlast (last t)). c < 0")
  case True
  from assms have "2 \<le> length t" by (simp add: wellformed_def nrows_def)
  from simplexTableau_choice[OF this True] show ?thesis by (auto split: if_splits)
next
  case False
  from assms have "t \<noteq> []" by (auto simp: wellformed_def nrows_def)
  from simplexTableau_optimal[OF this] False show ?thesis by blast
qed

text \<open>The position of a pivot that \<open>simplexTableau\<close> returns.\<close>

lemma simplexTableau_pivot_position:
  assumes rect: "rectangular t" and shape: "nrows t = m + 1" "ncols t = n + 1" and m: "1 \<le> m"
    and res: "simplexTableau t = Inr (Some p, Some q, opt, bounded)"
  shows "\<exists>p' q'. p = int p' \<and> q = int q' \<and> p' < n \<and> q' < m \<and> t ! m ! p' < 0 \<and>
           t ! q' ! p' > 0 \<and> \<not> opt \<and> bounded"
proof -
  have "\<exists>j<n. t ! m ! j < 0"
  proof (rule ccontr)
    assume "\<not> (\<exists>j<n. t ! m ! j < 0)"
    then have "\<forall>j<n. \<not> t ! m ! j < 0" by blast
    from simplexTableau_no_negative[OF rect shape this] res show False by simp
  qed
  then obtain j where "j < n" "t ! m ! j < 0" by blast
  from first_negative_exists[OF this] obtain p' where
    p': "p' < n" "t ! m ! p' < 0" "\<forall>i<p'. \<not> t ! m ! i < 0" by blast
  have "\<exists>k<m. t ! k ! p' > 0"
  proof (rule ccontr)
    assume "\<not> (\<exists>k<m. t ! k ! p' > 0)"
    then have "\<forall>k<m. \<not> t ! k ! p' > 0" by blast
    from simplexTableau_unbounded[OF rect shape m p' this] res show False by simp
  qed
  then obtain k where "k < m" "t ! k ! p' > 0" by blast
  from simplexTableau_pivot[OF rect shape m p' this] obtain q' where
    "q' < m" "simplexTableau t = Inr (Some (int p'), Some (int q'), False, True)"
    "t ! q' ! p' > 0" by blast
  with res p' show ?thesis by auto
qed

text \<open>What \<open>pivoting\<close> does at a positive entry inside the tableau.\<close>

lemma pivoting_positive_entry:
  assumes wf: "wellformed t" and q: "q < nrows t" and p: "p < ncols t" and pos: "t ! q ! p > 0"
  shows "if t ! q ! p < eps then pivoting t (int p) (int q) = Inl InvalidPivot
         else (\<exists>t'. pivoting t (int p) (int q) = Inr t' \<and> wellformed t' \<and>
                 nrows t' = nrows t \<and> ncols t' = ncols t)"
proof (cases "t ! q ! p < eps")
  case True
  with pos have "\<bar>t ! q ! p\<bar> < eps" by simp
  from pivoting_small_pivot[OF q p this] True show ?thesis by simp
next
  case False
  with pos have "eps \<le> \<bar>t ! q ! p\<bar>" by simp
  from pivoting_in_range[OF q p this] obtain t' where t': "pivoting t (int p) (int q) = Inr t'"
    by blast
  from wf have "rectangular t" by (simp add: wellformed_def)
  from pivoting_shape[OF t' this] pivoting_wellformed[OF t' wf] t' False show ?thesis
    by simp
qed

text \<open>How a run on a well-formed tableau can end.\<close>

lemma driver_outcomes:
  assumes wf: "wellformed t" and run: "simplexAlgorithmTableau t = Some r"
  shows "(\<exists>t'. r = Inr (t', True, False)) \<or> (\<exists>t'. r = Inr (t', False, True)) \<or>
         r = Inl InvalidPivot \<and>
         (\<exists>k t' p q. iterations k t = Some t' \<and>
            simplexTableau t' = Inr (Some (int p), Some (int q), False, True) \<and>
            0 < t' ! q ! p \<and> t' ! q ! p < eps)"
proof -
  from driver_returns[OF run] obtain k t' where
    k: "iterations k t = Some t'" "iteration t' = None" by blast
  from driver_iterations[OF k(1)] run have run': "simplexAlgorithmTableau t' = Some r" by simp
  have wf': "wellformed t'" by (rule iterations_wellformed[OF k(1) wf])
  from simplexTableau_total[OF wf'] obtain d where d: "simplexTableau t' = Inr d" by blast
  from simplexTableau_results[OF d] consider
    "d = (None, None, True, True)" | "d = (None, None, False, False)" |
    p q where "d = (Some (int p), Some (int q), False, True)" by blast
  then show ?thesis
  proof cases
    case 1
    with run' driver_last_pass[OF k(2)] d have "r = Inr (t', True, False)" by simp
    then show ?thesis by blast
  next
    case 2
    with run' driver_last_pass[OF k(2)] d have "r = Inr (t', False, True)" by simp
    then show ?thesis by blast
  next
    case 3
    from wf' have shape: "nrows t' = (nrows t' - 1) + 1" "ncols t' = (ncols t' - 1) + 1"
      by (simp_all add: wellformed_def)
    note w = wellformedD[OF wf' shape]
    from simplexTableau_pivot_position[OF w(1) shape w(2) d[unfolded 3]]
    have pos: "p < ncols t'" "q < nrows t'" "t' ! q ! p > 0" by auto
    note out = pivoting_positive_entry[OF wf' pos(2,1,3)]
    have small: "t' ! q ! p < eps"
    proof (rule ccontr)
      assume "\<not> t' ! q ! p < eps"
      with out obtain t'' where "pivoting t' (int p) (int q) = Inr t''" by auto
      with d 3 have "iteration t' = Some t''" by (simp add: iteration_def)
      with k(2) show False by simp
    qed
    with out have "pivoting t' (int p) (int q) = Inl InvalidPivot" by simp
    with run' driver_last_pass[OF k(2)] d 3 have "r = Inl InvalidPivot" by simp
    with k(1) d 3 pos(3) small show ?thesis by blast
  qed
qed

section \<open>Tableaux with fewer than two rows or columns\<close>

lemma simplexTableau_malformed:
  assumes rect: "rectangular t" and small: "nrows t < 2 \<or> ncols t < 2"
  shows "simplexTableau t =
           (if t = [] then Inl IndexError
            else if \<exists>c\<in>set (butlast (last t)). c < 0 then Inl ValueError
            else Inr (None, None, True, True))"
proof (cases "t = []")
  case True
  then show ?thesis by (simp add: simplexTableau_def)
next
  case ne: False
  show ?thesis
  proof (cases "\<exists>c\<in>set (butlast (last t)). c < 0")
    case True
    have "length t = 1"
    proof (rule ccontr)
      assume "length t \<noteq> 1"
      with ne have "2 \<le> length t" by (cases t) (auto simp: Suc_le_eq)
      from wellformed_of_negative[OF rect this True] small show False
        by (simp add: wellformed_def)
    qed
    from simplexTableau_one_row[OF this True] ne True show ?thesis by simp
  next
    case False
    from simplexTableau_optimal[OF ne] False ne show ?thesis by auto
  qed
qed

lemma driver_malformed:
  assumes rect: "rectangular t" and small: "nrows t < 2 \<or> ncols t < 2"
  shows "simplexAlgorithmTableau t =
           (if t = [] then Some (Inl IndexError)
            else if \<exists>c\<in>set (butlast (last t)). c < 0 then Some (Inl ValueError)
            else Some (Inr (t, True, False)))"
proof -
  note st = simplexTableau_malformed[OF rect small]
  then have "iteration t = None" by (simp add: iteration_def)
  from driver_last_pass[OF this] st show ?thesis by simp
qed

text \<open>The accepted row \<open>m\<close> (the objective row) of a tableau with \<open>m + 1 = 2\<close> rows.\<close>

lemma objective_row_pivot: "pivoting [[1, 0], [2, 1]] 0 1 = Inr [[0, - (1 / 2)], [1, 1 / 2]]"
  by (simp add: eval_defs)

lemma one_row_optimal: "simplexTableau [[1, 0]] = Inr (None, None, True, True)"
  by (simp add: eval_defs)

lemma one_entry_pivot: "pivoting [[2]] 0 0 = Inr [[1]]"
  by (simp add: eval_defs)

section \<open>Rounding to a float\<close>

lemma round_even_of_int: "round_even (of_int n) = n"
  by (simp add: round_even_def)

lemma round64_zero: "round64 0 = Num 0"
  by (simp add: round64_def)

lemma overflow_bound_powr: "overflow_bound = 2 powr of_int 1024"
  by (simp add: overflow_bound_def powr_realpow[symmetric])

lemma round64_pow2:
  assumes "- 1022 \<le> k" and "k \<le> 1023"
  shows "round64 (2 powr of_int k) = Num (2 powr of_int k)"
    and "round64 (- (2 powr of_int k)) = Num (- (2 powr of_int k))"
proof -
  let ?x = "(2::real) powr of_int k"
  have pos: "0 < ?x" by simp
  have fl: "\<lfloor>log 2 ?x\<rfloor> = k" by simp
  have e: "max \<lfloor>log 2 \<bar>?x\<bar>\<rfloor> (- 1022) = k" using assms(1) fl by simp
  have q: "?x / 2 powr of_int (k - 52) = of_int (2 ^ 52)"
    by (simp add: powr_diff powr_realpow[symmetric])
  have y: "of_int (round_even (?x / 2 powr of_int (k - 52))) * 2 powr of_int (k - 52) = ?x"
    unfolding q round_even_of_int by (simp add: powr_diff powr_realpow[symmetric])
  have "?x < 2 powr of_int 1024"
    by (rule powr_less_mono) (use assms(2) in simp_all)
  then have small: "\<not> overflow_bound \<le> \<bar>?x\<bar>" unfolding overflow_bound_powr by simp
  show "round64 ?x = Num ?x"
    using pos e y small by (simp add: round64_def Let_def)
  have q': "- ?x / 2 powr of_int (k - 52) = of_int (- (2 ^ 52))"
    by (simp add: powr_diff powr_realpow[symmetric])
  have y': "of_int (round_even (- ?x / 2 powr of_int (k - 52))) * 2 powr of_int (k - 52) = - ?x"
    unfolding q' round_even_of_int by (simp add: powr_diff powr_realpow[symmetric])
  show "round64 (- ?x) = Num (- ?x)"
    using pos e y' small by (simp add: round64_def Let_def)
qed

lemma round_even_ge:
  assumes "of_int n \<le> x"
  shows "n \<le> round_even x"
proof -
  from assms have "n \<le> \<lfloor>x\<rfloor>" by (simp add: le_floor_iff)
  then show ?thesis by (auto simp: round_even_def Let_def)
qed

lemma round64_overflow:
  assumes "overflow_bound \<le> x"
  shows "round64 x = PosInf"
proof -
  have "0 < overflow_bound" by (simp add: overflow_bound_def)
  with assms have pos: "0 < x" by linarith
  let ?e = "\<lfloor>log 2 x\<rfloor>"
  have "2 powr of_int 1024 \<le> x" using assms unfolding overflow_bound_powr .
  then have "of_int 1024 \<le> log 2 x" using pos by (subst le_log_iff) simp_all
  then have e_ge: "1024 \<le> ?e" using pos by (simp add: le_floor_iff)
  then have mx: "max ?e (- 1022) = ?e" by simp
  have le: "2 powr of_int ?e \<le> x"
    using pos floor_log_eq_powr_iff[of x 2 ?e] by simp
  let ?ulp = "(2::real) powr of_int (?e - 52)"
  have ulp_pos: "0 < ?ulp" by simp
  have "of_int (2 ^ 52) * ?ulp = 2 powr of_int ?e"
    by (simp add: powr_diff powr_realpow[symmetric])
  with le have "of_int (2 ^ 52) \<le> x / ?ulp" using ulp_pos by (simp add: pos_le_divide_eq)
  from round_even_ge[OF this] have "2 ^ 52 \<le> round_even (x / ?ulp)" .
  then have "(2::real) ^ 52 \<le> of_int (round_even (x / ?ulp))"
    by (metis of_int_le_iff of_int_numeral of_int_power)
  then have "2 ^ 52 * ?ulp \<le> of_int (round_even (x / ?ulp)) * ?ulp"
    using ulp_pos by (simp)
  moreover have "(2::real) ^ 52 * ?ulp = 2 powr of_int ?e"
    by (simp add: powr_diff powr_realpow[symmetric])
  moreover have "(2::real) powr of_int 1024 \<le> 2 powr of_int ?e"
    by (rule powr_mono) (use e_ge in simp_all)
  ultimately have "overflow_bound \<le> of_int (round_even (x / ?ulp)) * ?ulp"
    unfolding overflow_bound_powr by linarith
  then have "overflow_bound \<le> \<bar>of_int (round_even (x / ?ulp)) * ?ulp\<bar>" by linarith
  then show ?thesis using pos mx by (simp add: round64_def Let_def)
qed

section \<open>The overflowing tableaux, evaluated\<close>

lemma big_powr: "big = 2 powr of_int 700"
  by (simp add: big_def powr_realpow[symmetric])

lemma huge_powr: "huge = 2 powr of_int 1023"
  by (simp add: huge_def powr_realpow[symmetric])

lemma big_pos: "0 < big"
  by (simp add: big_def)

lemma huge_pos: "0 < huge"
  by (simp add: huge_def)

lemma round64_big: "round64 big = Num big" "round64 (- big) = Num (- big)"
  unfolding big_powr by (rule round64_pow2; simp)+

lemma round64_huge: "round64 huge = Num huge" "round64 (- huge) = Num (- huge)"
  unfolding huge_powr by (rule round64_pow2; simp)+

lemma round64_one: "round64 1 = Num 1" "round64 (- 1) = Num (- 1)"
  using round64_pow2[of 0] by simp_all

lemma round64_big_squared: "round64 (big * big) = PosInf"
proof (rule round64_overflow)
  have "big * big = 2 powr of_int 1400"
    unfolding big_powr by (simp add: powr_add[symmetric])
  moreover have "(2::real) powr of_int 1024 \<le> 2 powr of_int 1400"
    by (rule powr_mono) simp_all
  ultimately show "overflow_bound \<le> big * big"
    unfolding overflow_bound_powr by simp
qed

lemma round64_huge_twice: "round64 (huge * 2) = PosInf"
proof (rule round64_overflow)
  have "huge * 2 = 2 powr of_int 1024"
    unfolding huge_powr using powr_add[of "2::real" "of_int 1023" "of_int 1", symmetric] by simp
  then show "overflow_bound \<le> huge * 2"
    unfolding overflow_bound_powr by simp
qed

lemma round64_huge_times_four: "round64 (huge * 4) = PosInf"
proof (rule round64_overflow)
  have "huge * 4 = 2 powr of_int 1025"
    unfolding huge_powr using powr_add[of "2::real" "of_int 1023" "of_int 2", symmetric] by simp
  moreover have "(2::real) powr of_int 1024 \<le> 2 powr of_int 1025"
    by (rule powr_mono) simp_all
  ultimately show "overflow_bound \<le> huge * 4"
    unfolding overflow_bound_powr by simp
qed

lemmas eval64_defs = simplexTableau64_def pivoting64_def iteration64_def nrows64_def ncols64_def
  argmax_def argmin_def np_index_def eps_def Let_def upt_conv_Cons less_f64_def

lemmas round64_values = round64_zero round64_one round64_big round64_huge round64_big_squared
  round64_huge_twice round64_huge_times_four

lemma ratio_overflow_unbounded:
  "simplexTableau64 ratio_overflow = Inr (None, None, False, False)"
  using huge_pos by (simp add: ratio_overflow_def eval64_defs round64_values)


lemma nan_costs_iterations: "iterations64 2 nan_costs = Some nan_costs_final"
  using big_pos by (simp add: nan_costs_def nan_costs_final_def numeral_2_eq_2 eval64_defs round64_values)

lemma nan_costs_final_optimal: "simplexTableau64 nan_costs_final = Inr (None, None, True, True)"
  using big_pos by (simp add: nan_costs_final_def eval64_defs round64_values)

section \<open>Facts about the routines on floats\<close>

text \<open>The facts about the shape of the answers, proved again for the float routines.\<close>

lemma simplexTableau64_optimal:
  assumes "t \<noteq> []" and "\<forall>c\<in>set (butlast (last t)). \<not> f_lt c (Num 0)"
  shows "simplexTableau64 t = Inr (None, None, True, True)"
  using assms by (simp add: simplexTableau64_def list_ex_iff)

lemma steps64_eq:
  assumes "m \<le> length t - 1"
  shows "map (\<lambda>k. if f_lt (Num 0) (map (\<lambda>r. r ! p) (butlast t) ! k)
             then f_div (map last (butlast t) ! k) (map (\<lambda>r. r ! p) (butlast t) ! k)
             else PosInf) [0..<m]
   = map (step64_of t p) [0..<m]"
  using assms by (intro map_cong) (simp_all add: step64_of_def nth_butlast)

lemma simplexTableau64_choice:
  assumes "2 \<le> length t" and "\<exists>c\<in>set (butlast (last t)). f_lt c (Num 0)"
  shows "\<exists>p q. p < length (butlast (last t)) \<and> f_lt (butlast (last t) ! p) (Num 0) \<and>
           (\<forall>j<p. \<not> f_lt (butlast (last t) ! j) (Num 0)) \<and> q < length t - 1 \<and>
           (\<forall>k<length t - 1. step64_of t p q \<le> step64_of t p k) \<and>
           (\<forall>k<q. step64_of t p q < step64_of t p k) \<and>
           simplexTableau64 t =
             (if step64_of t p q = PosInf then Inr (None, None, False, False)
              else Inr (Some (int p), Some (int q), False, True))"
proof -
  let ?rc = "butlast (last t)"
  let ?neg = "map (\<lambda>c. f_lt c (Num 0)) ?rc"
  let ?m = "length t - 1"
  from assms(1) have ne: "t \<noteq> []" by auto
  from assms(2) have ex: "list_ex (\<lambda>b. b) ?neg" by (auto simp: list_ex_iff)
  from argmax_first_True[OF ex] obtain p where p: "argmax ?neg = Inr p" "p < length ?neg"
    "?neg ! p" "\<forall>j<p. \<not> ?neg ! j" by blast
  let ?steps = "map (step64_of t p) [0..<?m]"
  from assms(1) have sne: "?steps \<noteq> []" by simp
  from argmin_first_min[OF sne] obtain q where q: "argmin ?steps = Inr q" "q < length ?steps"
    "\<forall>j<length ?steps. ?steps ! q \<le> ?steps ! j" "\<forall>j<q. ?steps ! q < ?steps ! j" by blast
  have q': "q < ?m" using q(2) by simp
  have sq: "?steps ! q = step64_of t p q" using q' by simp
  have "simplexTableau64 t =
             (if step64_of t p q = PosInf then Inr (None, None, False, False)
              else Inr (Some (int p), Some (int q), False, True))"
    using ne ex p(1) q(1) sq
    by (simp add: simplexTableau64_def Let_def nrows64_def steps64_eq)
  moreover have "\<forall>k<?m. step64_of t p q \<le> step64_of t p k"
    using q(3) q' by simp
  moreover have "\<forall>k<q. step64_of t p q < step64_of t p k"
    using q(4) q' by simp
  moreover have "p < length ?rc" "f_lt (?rc ! p) (Num 0)" "\<forall>j<p. \<not> f_lt (?rc ! j) (Num 0)"
    using p(2,3,4) by simp_all
  ultimately show ?thesis using q' by blast
qed

lemma rectangular64_nth:
  assumes "rectangular64 t" and "k < length t"
  shows "length (t ! k) = ncols64 t"
  using assms by (simp add: rectangular64_def list_all_length)

lemma reducedCost64_nth:
  assumes "rectangular64 t" and "nrows64 t = m + 1" and "ncols64 t = n + 1"
  shows "length (butlast (last t)) = n"
    and "j < n \<Longrightarrow> butlast (last t) ! j = t ! m ! j"
proof -
  from assms(2) have ne: "t \<noteq> []" and m: "m < length t" "length t - 1 = m"
    by (auto simp: nrows64_def)
  have l: "last t = t ! m" using ne m by (simp add: last_conv_nth)
  have len: "length (t ! m) = n + 1" using rectangular64_nth[OF assms(1) m(1)] assms(3) by simp
  show "length (butlast (last t)) = n" using l len by simp
  show "j < n \<Longrightarrow> butlast (last t) ! j = t ! m ! j"
    using l len by (simp add: nth_butlast)
qed

lemma rhs64_last:
  assumes "rectangular64 t" and "ncols64 t = n + 1" and "k < length t"
  shows "last (t ! k) = t ! k ! n"
proof -
  have "length (t ! k) = n + 1" using rectangular64_nth[OF assms(1,3)] assms(2) by simp
  then show ?thesis by (cases "t ! k" rule: rev_cases) (simp_all add: nth_append)
qed

lemma simplexTableau64_first_negative:
  assumes rect: "rectangular64 t" and shape: "nrows64 t = m + 1" "ncols64 t = n + 1" and m: "1 \<le> m"
    and p: "p < n" "f_lt (t ! m ! p) (Num 0)" "\<forall>j<p. \<not> f_lt (t ! m ! j) (Num 0)"
  shows "\<exists>q<m. (\<forall>k<m. step64_of t p q \<le> step64_of t p k) \<and>
           (\<forall>k<q. step64_of t p q < step64_of t p k) \<and>
           simplexTableau64 t =
             (if step64_of t p q = PosInf then Inr (None, None, False, False)
              else Inr (Some (int p), Some (int q), False, True))"
proof -
  note rc = reducedCost64_nth[OF rect shape]
  have len: "2 \<le> length t" "length t - 1 = m" using shape(1) m by (simp_all add: nrows64_def)
  have "butlast (last t) ! p \<in> set (butlast (last t))"
    using p(1) rc(1) by (intro nth_mem) simp
  with p rc have ex: "\<exists>c\<in>set (butlast (last t)). f_lt c (Num 0)" by auto
  from simplexTableau64_choice[OF len(1) ex] obtain p' q where
    c: "p' < length (butlast (last t))" "f_lt (butlast (last t) ! p') (Num 0)"
       "\<forall>j<p'. \<not> f_lt (butlast (last t) ! j) (Num 0)" "q < length t - 1"
       "\<forall>k<length t - 1. step64_of t p' q \<le> step64_of t p' k"
       "\<forall>k<q. step64_of t p' q < step64_of t p' k"
       "simplexTableau64 t =
             (if step64_of t p' q = PosInf then Inr (None, None, False, False)
              else Inr (Some (int p'), Some (int q), False, True))"
    by blast
  have "p' = p"
  proof (rule ccontr)
    assume "p' \<noteq> p"
    then consider "p' < p" | "p < p'" by fastforce
    then show False
    proof cases
      case 1
      with c(2) p(1,3) rc(2)[of p'] show False by auto
    next
      case 2
      with c(3) p(1,2) rc(2)[of p] show False by auto
    qed
  qed
  with c len(2) show ?thesis by auto
qed

lemma first_negative64_exists:
  fixes t :: tableau64
  assumes "j < n" and "f_lt (t ! m ! j) (Num 0)"
  shows "\<exists>p<n. f_lt (t ! m ! p) (Num 0) \<and> (\<forall>i<p. \<not> f_lt (t ! m ! i) (Num 0))"
proof -
  define p where "p = (LEAST i. i < n \<and> f_lt (t ! m ! i) (Num 0))"
  have "p < n \<and> f_lt (t ! m ! p) (Num 0)"
    unfolding p_def using assms by (intro LeastI[of "\<lambda>i. i < n \<and> f_lt (t ! m ! i) (Num 0)" j]) simp
  then have p: "p < n" "f_lt (t ! m ! p) (Num 0)" by simp_all
  have "\<forall>i<p. \<not> f_lt (t ! m ! i) (Num 0)"
  proof (intro allI impI)
    fix i assume "i < p"
    then have "\<not> (i < n \<and> f_lt (t ! m ! i) (Num 0))" unfolding p_def by (rule not_less_Least)
    with \<open>i < p\<close> p(1) show "\<not> f_lt (t ! m ! i) (Num 0)" by simp
  qed
  with p show ?thesis by blast
qed

lemma simplexTableau64_one_row:
  assumes "length t = 1" and "\<exists>c\<in>set (butlast (last t)). f_lt c (Num 0)"
  shows "simplexTableau64 t = Inl ValueError"
proof -
  from assms(1) have ne: "t \<noteq> []" by auto
  from assms(2) have ex: "list_ex (\<lambda>b. b) (map (\<lambda>c. f_lt c (Num 0)) (butlast (last t)))"
    by (auto simp: list_ex_iff)
  from argmax_first_True[OF ex] obtain p where
    "argmax (map (\<lambda>c. f_lt c (Num 0)) (butlast (last t))) = Inr p" by blast
  with ne ex assms(1) show ?thesis
    by (simp add: simplexTableau64_def Let_def nrows64_def argmin_def)
qed

lemma simplexTableau64_results:
  assumes "simplexTableau64 t = Inr r"
  shows "r = (None, None, True, True) \<and> t \<noteq> [] \<and> (\<forall>c\<in>set (butlast (last t)). \<not> f_lt c (Num 0)) \<or>
         r = (None, None, False, False) \<and> 2 \<le> length t \<and> (\<exists>c\<in>set (butlast (last t)). f_lt c (Num 0)) \<or>
         (\<exists>p q. r = (Some (int p), Some (int q), False, True)) \<and> 2 \<le> length t \<and>
           (\<exists>c\<in>set (butlast (last t)). f_lt c (Num 0))"
proof -
  from assms have ne: "t \<noteq> []" by (auto simp: simplexTableau64_def)
  show ?thesis
  proof (cases "\<exists>c\<in>set (butlast (last t)). f_lt c (Num 0)")
    case False
    with simplexTableau64_optimal[OF ne] assms ne show ?thesis by auto
  next
    case True
    have len: "2 \<le> length t"
    proof (rule ccontr)
      assume "\<not> 2 \<le> length t"
      moreover from ne have "length t \<noteq> 0" by simp
      ultimately have "length t = 1" by arith
      from simplexTableau64_one_row[OF this True] assms show False by simp
    qed
    from simplexTableau64_choice[OF len True] assms True len show ?thesis
      by (auto split: if_splits)
  qed
qed

lemma wellformed64_of_negative:
  assumes "rectangular64 t" and "2 \<le> length t" and "\<exists>c\<in>set (butlast (last t)). f_lt c (Num 0)"
  shows "wellformed64 t"
proof -
  from assms(2) have ne: "t \<noteq> []" by auto
  from assms(3) have "butlast (last t) \<noteq> []" by auto
  then have "2 \<le> length (last t)" by (cases "last t" rule: rev_cases) (auto simp: Suc_le_eq)
  moreover have "length (last t) = ncols64 t"
    using rectangular64_nth[OF assms(1), of "length t - 1"] ne by (simp add: last_conv_nth)
  ultimately show ?thesis using assms(1,2) by (simp add: wellformed64_def nrows64_def)
qed

lemma ncols64_nth:
  assumes "t \<noteq> []"
  shows "ncols64 t = length (t ! 0)"
  using assms by (cases t) (simp_all add: ncols64_def)

lemma pivoting64_shape:
  assumes "pivoting64 t p q = Inr t'" and "rectangular64 t"
  shows "nrows64 t' = nrows64 t" and "ncols64 t' = ncols64 t" and "rectangular64 t'"
proof -
  from assms(1) obtain qi pj where qi: "np_index (nrows64 t) q = Inr qi"
    and t': "t' = map (\<lambda>i. if int i = q then map (\<lambda>x. f_div x (t ! qi ! pj)) (t ! qi)
                          else map2 (\<lambda>a b. f_sub a (f_div (f_mul (t ! i ! pj) b) (t ! qi ! pj)))
                                 (t ! i) (t ! qi))
                  [0..<nrows64 t]"
    by (auto simp: pivoting64_def Let_def split: if_splits sum.splits)
  from qi have qi_lt: "qi < length t"
    by (auto simp: np_index_def nrows64_def split: if_splits)
  show n: "nrows64 t' = nrows64 t" by (simp add: t' nrows64_def)
  have rows: "\<And>i. i < length t \<Longrightarrow> length (t' ! i) = ncols64 t"
    using rectangular64_nth[OF assms(2)] qi_lt by (simp add: t' nrows64_def)
  have ne: "t \<noteq> []" "t' \<noteq> []" using qi_lt n by (auto simp: nrows64_def)
  show c: "ncols64 t' = ncols64 t"
    using rows[of 0] ne ncols64_nth[OF ne(2)] by simp
  show "rectangular64 t'"
    unfolding rectangular64_def list_all_length using rows n c by (simp add: nrows64_def)
qed

lemma driver64_iteration:
  assumes "iteration64 t = Some t'"
  shows "simplexAlgorithmTableau64 t = simplexAlgorithmTableau64 t'"
  using assms
  by (subst simplexAlgorithmTableau64.simps)
     (auto simp: iteration64_def split: sum.splits prod.splits option.splits if_splits)

lemma driver64_iterations:
  assumes "iterations64 k t = Some t'"
  shows "simplexAlgorithmTableau64 t = simplexAlgorithmTableau64 t'"
  using assms
proof (induction k arbitrary: t)
  case 0
  then show ?case by simp
next
  case (Suc k)
  then obtain t1 where t1: "iteration64 t = Some t1" "iterations64 k t1 = Some t'"
    by (auto split: option.splits)
  from driver64_iteration[OF t1(1)] Suc.IH[OF t1(2)] show ?case by simp
qed

lemma driver64_returns:
  assumes "simplexAlgorithmTableau64 t = Some r"
  shows "\<exists>k t'. iterations64 k t = Some t' \<and> iteration64 t' = None"
proof (rule simplexAlgorithmTableau64.raw_induct
    [where P = "\<lambda>t r. \<exists>k t'. iterations64 k t = Some t' \<and> iteration64 t' = None", OF _ assms])
  fix run :: "tableau64 \<Rightarrow> (error + (tableau64 \<times> bool \<times> bool)) option" and t r
  assume IH: "\<And>x y. run x = Some y \<Longrightarrow> \<exists>k t'. iterations64 k x = Some t' \<and> iteration64 t' = None"
    and body: "(case simplexTableau64 t of
        Inl e \<Rightarrow> Some (Inl e)
      | Inr (colPivot, rowPivot, optimal, bounded) \<Rightarrow>
          if optimal then Some (Inr (t, True, False))
          else if \<not> bounded then Some (Inr (t, False, True))
          else
            (case (colPivot, rowPivot) of
               (Some p, Some q) \<Rightarrow>
                 (case pivoting64 t p q of
                    Inl e \<Rightarrow> Some (Inl e)
                  | Inr newtableau \<Rightarrow> run newtableau)
             | _ \<Rightarrow> Some (Inl TypeError))) = Some r"
  show "\<exists>k t'. iterations64 k t = Some t' \<and> iteration64 t' = None"
  proof (cases "iteration64 t")
    case None
    then have "iterations64 0 t = Some t \<and> iteration64 t = None" by simp
    then show ?thesis by blast
  next
    case (Some t1)
    with body have "run t1 = Some r"
      by (auto simp: iteration64_def split: sum.splits prod.splits option.splits if_splits)
    from IH[OF this] obtain k t' where "iterations64 k t1 = Some t'" "iteration64 t' = None"
      by blast
    with Some have "iterations64 (Suc k) t = Some t' \<and> iteration64 t' = None" by simp
    then show ?thesis by blast
  qed
qed

lemma driver64_last_pass:
  assumes "iteration64 t = None"
  shows "simplexAlgorithmTableau64 t =
           (case simplexTableau64 t of
              Inl e \<Rightarrow> Some (Inl e)
            | Inr (colPivot, rowPivot, optimal, bounded) \<Rightarrow>
                if optimal then Some (Inr (t, True, False))
                else if \<not> bounded then Some (Inr (t, False, True))
                else (case (colPivot, rowPivot) of
                        (Some p, Some q) \<Rightarrow> Some (Inl (projl (pivoting64 t p q)))
                      | _ \<Rightarrow> Some (Inl TypeError)))"
  using assms
  by (subst simplexAlgorithmTableau64.simps)
     (auto simp: iteration64_def split: sum.splits prod.splits option.splits if_splits)

lemma iteration64_pivot:
  assumes "iteration64 t = Some t'"
  shows "\<exists>p q. simplexTableau64 t = Inr (Some p, Some q, False, True) \<and> pivoting64 t p q = Inr t'"
  using assms
  by (auto simp: iteration64_def split: sum.splits prod.splits option.splits if_splits)

lemma iteration64_rectangular:
  assumes "iteration64 t = Some t'" and "rectangular64 t"
  shows "rectangular64 t'"
  using iteration64_pivot[OF assms(1)] pivoting64_shape(3)[OF _ assms(2)] by blast

lemma iterations64_rectangular:
  assumes "iterations64 k t = Some t'" and "rectangular64 t"
  shows "rectangular64 t'"
  using assms
proof (induction k arbitrary: t)
  case 0
  then show ?case by simp
next
  case (Suc k)
  then obtain t1 where t1: "iteration64 t = Some t1" "iterations64 k t1 = Some t'"
    by (auto split: option.splits)
  from Suc.IH[OF t1(2) iteration64_rectangular[OF t1(1) Suc.prems(2)]] show ?case .
qed

lemma driver64_unbounded:
  assumes "simplexAlgorithmTableau64 t = Some (Inr (t', False, True))"
  shows "\<exists>k. iterations64 k t = Some t' \<and> simplexTableau64 t' = Inr (None, None, False, False)"
proof -
  from driver64_returns[OF assms] obtain k t'' where
    k: "iterations64 k t = Some t''" "iteration64 t'' = None" by blast
  from driver64_iterations[OF k(1)] assms
  have run: "simplexAlgorithmTableau64 t'' = Some (Inr (t', False, True))" by simp
  from run driver64_last_pass[OF k(2)] obtain r where r: "simplexTableau64 t'' = Inr r"
    by (auto split: sum.splits)
  from run driver64_last_pass[OF k(2)] r simplexTableau64_results[OF r]
  have "t'' = t'" and "r = (None, None, False, False)"
    by (auto split: if_splits)
  with k(1) r show ?thesis by auto
qed

text \<open>Away from NaN the order of \<open>np.argmin\<close> is the order of the floats.\<close>

lemma f_le_iff:
  assumes "a \<noteq> NaN" and "b \<noteq> NaN"
  shows "f_le a b \<longleftrightarrow> a \<le> b"
  using assms by (cases a; cases b) auto

lemma f_lt_iff:
  assumes "a \<noteq> NaN" and "b \<noteq> NaN"
  shows "f_lt a b \<longleftrightarrow> a < b"
  using assms by (cases a; cases b) (auto simp: less_f64_def)

lemma PosInf_le_iff: "PosInf \<le> s \<longleftrightarrow> s = PosInf"
  by (cases s) auto

lemma not_f_lt_zero_iff: "\<not> f_lt c (Num 0) \<longleftrightarrow> c = NaN \<or> f_le (Num 0) c"
  by (cases c) auto

lemma step64_of_quotient:
  assumes "rectangular64 t" and "nrows64 t = m + 1" and "ncols64 t = n + 1" and "k < m"
  shows "step64_of t p k =
           (if f_lt (Num 0) (t ! k ! p) then f_div (t ! k ! n) (t ! k ! p) else PosInf)"
proof -
  from assms(2,4) have "k < length t" by (simp add: nrows64_def)
  from rhs64_last[OF assms(1,3) this] show ?thesis by (simp add: step64_of_def)
qed

lemma simplexTableau64_no_negative:
  assumes "rectangular64 t" and "nrows64 t = m + 1" and "ncols64 t = n + 1"
    and "\<forall>j<n. \<not> f_lt (t ! m ! j) (Num 0)"
  shows "simplexTableau64 t = Inr (None, None, True, True)"
proof -
  note rc = reducedCost64_nth[OF assms(1,2,3)]
  from assms(2) have ne: "t \<noteq> []" by (auto simp: nrows64_def)
  have "\<forall>c\<in>set (butlast (last t)). \<not> f_lt c (Num 0)"
  proof
    fix c assume "c \<in> set (butlast (last t))"
    then obtain j where "j < length (butlast (last t))" "c = butlast (last t) ! j"
      by (auto simp: in_set_conv_nth)
    with rc assms(4) show "\<not> f_lt c (Num 0)" by auto
  qed
  with ne show ?thesis by (rule simplexTableau64_optimal)
qed

text \<open>
  The answer of the float routine when the first negative reduced cost is in column
  \<open>p\<close>: Unbounded exactly when every step is \<open>np.inf\<close>.
\<close>

lemma simplexTableau64_unbounded_iff_steps:
  assumes rect: "rectangular64 t" and shape: "nrows64 t = m + 1" "ncols64 t = n + 1"
    and m: "1 \<le> m"
    and p: "p < n" "f_lt (t ! m ! p) (Num 0)" "\<forall>j<p. \<not> f_lt (t ! m ! j) (Num 0)"
  shows "simplexTableau64 t = Inr (None, None, False, False) \<longleftrightarrow>
           (\<forall>k<m. step64_of t p k = PosInf)"
proof -
  from simplexTableau64_first_negative[OF rect shape m p] obtain q where
    q: "q < m" "\<forall>k<m. step64_of t p q \<le> step64_of t p k"
       "simplexTableau64 t =
             (if step64_of t p q = PosInf then Inr (None, None, False, False)
              else Inr (Some (int p), Some (int q), False, True))"
    by blast
  have "step64_of t p q = PosInf \<longleftrightarrow> (\<forall>k<m. step64_of t p k = PosInf)"
  proof
    assume inf: "step64_of t p q = PosInf"
    show "\<forall>k<m. step64_of t p k = PosInf"
    proof (intro allI impI)
      fix k assume "k < m"
      with q(2) inf have "PosInf \<le> step64_of t p k" by auto
      then show "step64_of t p k = PosInf" by (simp add: PosInf_le_iff)
    qed
  next
    assume "\<forall>k<m. step64_of t p k = PosInf"
    with q(1) show "step64_of t p q = PosInf" by simp
  qed
  with q(3) show ?thesis by auto
qed

lemma simplexTableau64_unbounded_iff:
  assumes rect: "rectangular64 t" and shape: "nrows64 t = m + 1" "ncols64 t = n + 1"
    and m: "1 \<le> m"
  shows "simplexTableau64 t = Inr (None, None, False, False) \<longleftrightarrow>
           (\<exists>p<n. f_lt (t ! m ! p) (Num 0) \<and> (\<forall>j<p. \<not> f_lt (t ! m ! j) (Num 0)) \<and>
              (\<forall>k<m. \<not> f_lt (Num 0) (t ! k ! p) \<or> f_div (t ! k ! n) (t ! k ! p) = PosInf))"
proof
  assume unb: "simplexTableau64 t = Inr (None, None, False, False)"
  have "\<exists>j<n. f_lt (t ! m ! j) (Num 0)"
  proof (rule ccontr)
    assume "\<not> (\<exists>j<n. f_lt (t ! m ! j) (Num 0))"
    then have "\<forall>j<n. \<not> f_lt (t ! m ! j) (Num 0)" by blast
    from simplexTableau64_no_negative[OF rect shape this] unb show False by simp
  qed
  then obtain j where "j < n" "f_lt (t ! m ! j) (Num 0)" by blast
  from first_negative64_exists[OF this] obtain p where
    p: "p < n" "f_lt (t ! m ! p) (Num 0)" "\<forall>i<p. \<not> f_lt (t ! m ! i) (Num 0)" by blast
  from simplexTableau64_unbounded_iff_steps[OF rect shape m p] unb
  have "\<forall>k<m. step64_of t p k = PosInf" by simp
  then have "\<forall>k<m. \<not> f_lt (Num 0) (t ! k ! p) \<or> f_div (t ! k ! n) (t ! k ! p) = PosInf"
    using step64_of_quotient[OF rect shape] by (auto split: if_splits)
  with p show "\<exists>p<n. f_lt (t ! m ! p) (Num 0) \<and> (\<forall>j<p. \<not> f_lt (t ! m ! j) (Num 0)) \<and>
              (\<forall>k<m. \<not> f_lt (Num 0) (t ! k ! p) \<or> f_div (t ! k ! n) (t ! k ! p) = PosInf)"
    by blast
next
  assume "\<exists>p<n. f_lt (t ! m ! p) (Num 0) \<and> (\<forall>j<p. \<not> f_lt (t ! m ! j) (Num 0)) \<and>
              (\<forall>k<m. \<not> f_lt (Num 0) (t ! k ! p) \<or> f_div (t ! k ! n) (t ! k ! p) = PosInf)"
  then obtain p where p: "p < n" "f_lt (t ! m ! p) (Num 0)" "\<forall>j<p. \<not> f_lt (t ! m ! j) (Num 0)"
    and all: "\<forall>k<m. \<not> f_lt (Num 0) (t ! k ! p) \<or> f_div (t ! k ! n) (t ! k ! p) = PosInf"
    by blast
  have "\<forall>k<m. step64_of t p k = PosInf"
    using all step64_of_quotient[OF rect shape] by auto
  with simplexTableau64_unbounded_iff_steps[OF rect shape m p]
  show "simplexTableau64 t = Inr (None, None, False, False)" by simp
qed

text \<open>
  The pivot of the float routine: the first row of least float ratio, when some ratio
  is finite and none is a NaN.
\<close>

lemma simplexTableau64_pivot:
  assumes rect: "rectangular64 t" and shape: "nrows64 t = m + 1" "ncols64 t = n + 1"
    and m: "1 \<le> m"
    and p: "p < n" "f_lt (t ! m ! p) (Num 0)" "\<forall>j<p. \<not> f_lt (t ! m ! j) (Num 0)"
    and fin: "i < m" "f_lt (Num 0) (t ! i ! p)" "f_div (t ! i ! n) (t ! i ! p) \<noteq> PosInf"
    and nonan: "\<forall>k<m. f_lt (Num 0) (t ! k ! p) \<longrightarrow> f_div (t ! k ! n) (t ! k ! p) \<noteq> NaN"
  shows "\<exists>q<m. simplexTableau64 t = Inr (Some (int p), Some (int q), False, True) \<and>
           f_lt (Num 0) (t ! q ! p) \<and>
           (\<forall>k<m. f_lt (Num 0) (t ! k ! p) \<longrightarrow>
              f_le (f_div (t ! q ! n) (t ! q ! p)) (f_div (t ! k ! n) (t ! k ! p))) \<and>
           (\<forall>k<q. f_lt (Num 0) (t ! k ! p) \<longrightarrow>
              f_lt (f_div (t ! q ! n) (t ! q ! p)) (f_div (t ! k ! n) (t ! k ! p)))"
proof -
  from simplexTableau64_first_negative[OF rect shape m p] obtain q where
    q: "q < m" "\<forall>k<m. step64_of t p q \<le> step64_of t p k"
       "\<forall>k<q. step64_of t p q < step64_of t p k"
       "simplexTableau64 t =
             (if step64_of t p q = PosInf then Inr (None, None, False, False)
              else Inr (Some (int p), Some (int q), False, True))"
    by blast
  note st = step64_of_quotient[OF rect shape]
  have si: "step64_of t p i = f_div (t ! i ! n) (t ! i ! p)" using st[OF fin(1)] fin(2) by simp
  have ninf: "step64_of t p q \<noteq> PosInf"
  proof
    assume "step64_of t p q = PosInf"
    with q(2) fin(1) have "PosInf \<le> step64_of t p i" by auto
    with si fin(3) show False by (simp add: PosInf_le_iff)
  qed
  then have qpos: "f_lt (Num 0) (t ! q ! p)" using st[OF q(1)] by (auto split: if_splits)
  then have sq: "step64_of t p q = f_div (t ! q ! n) (t ! q ! p)" using st[OF q(1)] by simp
  have qn: "f_div (t ! q ! n) (t ! q ! p) \<noteq> NaN" using nonan q(1) qpos by simp
  have "\<forall>k<m. f_lt (Num 0) (t ! k ! p) \<longrightarrow>
              f_le (f_div (t ! q ! n) (t ! q ! p)) (f_div (t ! k ! n) (t ! k ! p))"
  proof (intro allI impI)
    fix k assume k: "k < m" "f_lt (Num 0) (t ! k ! p)"
    then have sk: "step64_of t p k = f_div (t ! k ! n) (t ! k ! p)" using st[OF k(1)] by simp
    from nonan k have kn: "f_div (t ! k ! n) (t ! k ! p) \<noteq> NaN" by simp
    from q(2) k(1) sq sk have "f_div (t ! q ! n) (t ! q ! p) \<le> f_div (t ! k ! n) (t ! k ! p)"
      by auto
    then show "f_le (f_div (t ! q ! n) (t ! q ! p)) (f_div (t ! k ! n) (t ! k ! p))"
      by (simp add: f_le_iff[OF qn kn])
  qed
  moreover have "\<forall>k<q. f_lt (Num 0) (t ! k ! p) \<longrightarrow>
              f_lt (f_div (t ! q ! n) (t ! q ! p)) (f_div (t ! k ! n) (t ! k ! p))"
  proof (intro allI impI)
    fix k assume k: "k < q" "f_lt (Num 0) (t ! k ! p)"
    with q(1) have km: "k < m" by simp
    then have sk: "step64_of t p k = f_div (t ! k ! n) (t ! k ! p)" using st[OF km] k(2) by simp
    from nonan km k(2) have kn: "f_div (t ! k ! n) (t ! k ! p) \<noteq> NaN" by simp
    from q(3) k(1) sq sk have "f_div (t ! q ! n) (t ! q ! p) < f_div (t ! k ! n) (t ! k ! p)"
      by auto
    then show "f_lt (f_div (t ! q ! n) (t ! q ! p)) (f_div (t ! k ! n) (t ! k ! p))"
      by (simp add: f_lt_iff[OF qn kn])
  qed
  ultimately show ?thesis using q(1,4) ninf qpos by auto
qed

lemma wellformed64D:
  assumes "wellformed64 t" and "nrows64 t = m + 1" and "ncols64 t = n + 1"
  shows "rectangular64 t" and "1 \<le> m" and "1 \<le> n" and "m < length t" and "t \<noteq> []"
  using assms by (auto simp: wellformed64_def nrows64_def)

text \<open>The last pass of a run that returns with status Optimal, on the reals and on floats.\<close>

lemma driver_optimal:
  assumes "simplexAlgorithmTableau t = Some (Inr (t', True, False))"
  shows "\<exists>k. iterations k t = Some t' \<and> simplexTableau t' = Inr (None, None, True, True) \<and>
           t' \<noteq> [] \<and> (\<forall>j<length (last t') - 1. 0 \<le> t' ! (nrows t' - 1) ! j)"
proof -
  from driver_returns[OF assms] obtain k t'' where
    k: "iterations k t = Some t''" "iteration t'' = None" by blast
  from driver_iterations[OF k(1)] assms
  have run: "simplexAlgorithmTableau t'' = Some (Inr (t', True, False))" by simp
  from run driver_last_pass[OF k(2)] obtain r where r: "simplexTableau t'' = Inr r"
    by (auto split: sum.splits)
  from run driver_last_pass[OF k(2)] r simplexTableau_results[OF r]
  have eq: "t'' = t'" and opt: "r = (None, None, True, True)" and ne: "t' \<noteq> []"
    and nn: "\<forall>c\<in>set (butlast (last t')). \<not> c < 0"
    by (auto split: if_splits)
  have "\<forall>j<length (last t') - 1. 0 \<le> t' ! (nrows t' - 1) ! j"
    using reducedCost_nonneg[OF nn] ne by (simp add: last_conv_nth nrows_def)
  with k(1) r eq opt ne show ?thesis by auto
qed

lemma reducedCost64_not_negative:
  assumes "\<forall>c\<in>set (butlast (last t)). \<not> f_lt c (Num 0)" and "j < length (last t) - 1"
  shows "\<not> f_lt (last t ! j) (Num 0)"
proof -
  from assms(2) have j: "j < length (butlast (last t))" by simp
  then have "butlast (last t) ! j \<in> set (butlast (last t))" by (rule nth_mem)
  with assms(1) j show ?thesis by (auto simp: nth_butlast)
qed

lemma driver64_optimal:
  assumes "simplexAlgorithmTableau64 t = Some (Inr (t', True, False))"
  shows "\<exists>k. iterations64 k t = Some t' \<and> simplexTableau64 t' = Inr (None, None, True, True) \<and>
           t' \<noteq> [] \<and>
           (\<forall>j<length (last t') - 1. \<not> f_lt (t' ! (nrows64 t' - 1) ! j) (Num 0))"
proof -
  from driver64_returns[OF assms] obtain k t'' where
    k: "iterations64 k t = Some t''" "iteration64 t'' = None" by blast
  from driver64_iterations[OF k(1)] assms
  have run: "simplexAlgorithmTableau64 t'' = Some (Inr (t', True, False))" by simp
  from run driver64_last_pass[OF k(2)] obtain r where r: "simplexTableau64 t'' = Inr r"
    by (auto split: sum.splits)
  from run driver64_last_pass[OF k(2)] r simplexTableau64_results[OF r]
  have eq: "t'' = t'" and opt: "r = (None, None, True, True)" and ne: "t' \<noteq> []"
    and nn: "\<forall>c\<in>set (butlast (last t')). \<not> f_lt c (Num 0)"
    by (auto split: if_splits)
  have "\<forall>j<length (last t') - 1. \<not> f_lt (t' ! (nrows64 t' - 1) ! j) (Num 0)"
    using reducedCost64_not_negative[OF nn] ne by (simp add: last_conv_nth nrows64_def)
  with k(1) r eq opt ne show ?thesis by auto
qed

text \<open>The tableau that a run returns with status Unbounded, on the reals and on floats.\<close>

lemma driver_unbounded_column:
  assumes rect: "rectangular t"
    and run: "simplexAlgorithmTableau t = Some (Inr (t', False, True))"
  shows "simplexTableau t' = Inr (None, None, False, False) \<and>
         (\<exists>p<ncols t' - 1. t' ! (nrows t' - 1) ! p < 0 \<and>
            (\<forall>j<p. \<not> t' ! (nrows t' - 1) ! j < 0) \<and> (\<forall>k<nrows t' - 1. \<not> t' ! k ! p > 0))"
proof -
  from driver_unbounded[OF run] obtain k where
    k: "iterations k t = Some t'" and unb: "simplexTableau t' = Inr (None, None, False, False)"
    by blast
  have rect': "rectangular t'" by (rule iterations_rectangular[OF k rect])
  from simplexTableau_results[OF unb] have "2 \<le> length t'" "\<exists>c\<in>set (butlast (last t')). c < 0"
    by auto
  from wellformed_of_negative[OF rect' this] have wf': "wellformed t'" .
  then have shape: "nrows t' = (nrows t' - 1) + 1" "ncols t' = (ncols t' - 1) + 1"
    by (simp_all add: wellformed_def)
  note d = wellformedD[OF wf' shape]
  from simplexTableau_unbounded_iff[OF d(1) shape d(2)] unb show ?thesis by simp
qed

lemma driver64_unbounded_column:
  assumes rect: "rectangular64 t"
    and run: "simplexAlgorithmTableau64 t = Some (Inr (t', False, True))"
  shows "simplexTableau64 t' = Inr (None, None, False, False) \<and>
         (\<exists>p<ncols64 t' - 1. f_lt (t' ! (nrows64 t' - 1) ! p) (Num 0) \<and>
            (\<forall>j<p. \<not> f_lt (t' ! (nrows64 t' - 1) ! j) (Num 0)) \<and>
            (\<forall>k<nrows64 t' - 1. \<not> f_lt (Num 0) (t' ! k ! p) \<or>
               f_div (t' ! k ! (ncols64 t' - 1)) (t' ! k ! p) = PosInf))"
proof -
  from driver64_unbounded[OF run] obtain k where
    k: "iterations64 k t = Some t'"
    and unb: "simplexTableau64 t' = Inr (None, None, False, False)"
    by blast
  have rect': "rectangular64 t'" by (rule iterations64_rectangular[OF k rect])
  from simplexTableau64_results[OF unb]
  have "2 \<le> length t'" "\<exists>c\<in>set (butlast (last t')). f_lt c (Num 0)"
    by auto
  from wellformed64_of_negative[OF rect' this] have wf': "wellformed64 t'" .
  then have shape: "nrows64 t' = (nrows64 t' - 1) + 1" "ncols64 t' = (ncols64 t' - 1) + 1"
    by (simp_all add: wellformed64_def)
  note d = wellformed64D[OF wf' shape]
  from simplexTableau64_unbounded_iff[OF d(1) shape d(2)] unb show ?thesis by simp
qed

text \<open>The floats of the overflowing tableaux, and the runs on them.\<close>

lemma round64_two: "round64 2 = Num 2"
  using round64_pow2(1)[of 1] by simp

lemma wellformed64_nan_costs: "wellformed64 nan_costs"
  by (simp add: wellformed64_def rectangular64_def nrows64_def ncols64_def nan_costs_def)

lemma wellformed64_ratio_overflow: "wellformed64 ratio_overflow"
  by (simp add: wellformed64_def rectangular64_def nrows64_def ncols64_def ratio_overflow_def)

lemma wellformed64_ratios_overflow: "wellformed64 ratios_overflow"
  by (simp add: wellformed64_def rectangular64_def nrows64_def ncols64_def ratios_overflow_def)

lemma wellformed64_iteration_tableau64: "wellformed64 iteration_tableau64"
  by (simp add: wellformed64_def rectangular64_def nrows64_def ncols64_def
      iteration_tableau64_def)

lemma nan_costs_run:
  "simplexAlgorithmTableau64 nan_costs = Some (Inr (nan_costs_final, True, False))"
proof -
  have "iteration64 nan_costs_final = None"
    by (simp add: iteration64_def nan_costs_final_optimal)
  from driver64_last_pass[OF this] have
    "simplexAlgorithmTableau64 nan_costs_final = Some (Inr (nan_costs_final, True, False))"
    by (simp add: nan_costs_final_optimal)
  with driver64_iterations[OF nan_costs_iterations] show ?thesis by simp
qed

lemma ratio_overflow_run:
  "simplexAlgorithmTableau64 ratio_overflow = Some (Inr (ratio_overflow, False, True))"
proof -
  have "iteration64 ratio_overflow = None"
    by (simp add: iteration64_def ratio_overflow_unbounded)
  from driver64_last_pass[OF this] show ?thesis
    by (simp add: ratio_overflow_unbounded)
qed

lemma ratios_overflow_unbounded:
  "simplexTableau64 ratios_overflow = Inr (None, None, False, False)"
  using huge_pos by (simp add: ratios_overflow_def eval64_defs round64_values)

lemma iteration_tableau64_decision:
  "simplexTableau64 iteration_tableau64 = Inr (Some 1, Some 1, False, True)"
  by (simp add: iteration_tableau64_def eval64_defs round64_values round64_two)

section \<open>The claims\<close>

text \<open>
  C1, as the code has it.  When the driver returns with status Optimal, the tableau it
  returns is the tableau of its last pass (the one reached after some number \<open>k\<close> of
  pivots, on which \<open>simplexTableau\<close> answered Optimal), returned as it is, and no entry
  of its last row before the right-hand side is \<open>< 0\<close>: on floats each is \<open>\<ge> 0\<close> or a
  NaN, in exact arithmetic each is \<open>\<ge> 0\<close>.
\<close>

theorem optimal_certificate:
  "(\<forall>t t'. simplexAlgorithmTableau64 t = Some (Inr (t', True, False)) \<longrightarrow>
      (\<exists>k. iterations64 k t = Some t') \<and>
      simplexTableau64 t' = Inr (None, None, True, True) \<and> t' \<noteq> [] \<and>
      (\<forall>j<length (last t') - 1.
          t' ! (nrows64 t' - 1) ! j = NaN \<or> f_le (Num 0) (t' ! (nrows64 t' - 1) ! j))) \<and>
   (\<forall>t t'. simplexAlgorithmTableau t = Some (Inr (t', True, False)) \<longrightarrow>
      (\<exists>k. iterations k t = Some t') \<and>
      simplexTableau t' = Inr (None, None, True, True) \<and> t' \<noteq> [] \<and>
      (\<forall>j<length (last t') - 1. 0 \<le> t' ! (nrows t' - 1) ! j))"
proof (rule conjI)
  show "\<forall>t t'. simplexAlgorithmTableau64 t = Some (Inr (t', True, False)) \<longrightarrow>
      (\<exists>k. iterations64 k t = Some t') \<and>
      simplexTableau64 t' = Inr (None, None, True, True) \<and> t' \<noteq> [] \<and>
      (\<forall>j<length (last t') - 1.
          t' ! (nrows64 t' - 1) ! j = NaN \<or> f_le (Num 0) (t' ! (nrows64 t' - 1) ! j))"
  proof (intro allI impI)
    fix t t' :: tableau64
    assume "simplexAlgorithmTableau64 t = Some (Inr (t', True, False))"
    from driver64_optimal[OF this] obtain k where k: "iterations64 k t = Some t'"
      and opt: "simplexTableau64 t' = Inr (None, None, True, True)" and ne: "t' \<noteq> []"
      and nn: "\<forall>j<length (last t') - 1. \<not> f_lt (t' ! (nrows64 t' - 1) ! j) (Num 0)"
      by blast
    from nn have "\<forall>j<length (last t') - 1.
          t' ! (nrows64 t' - 1) ! j = NaN \<or> f_le (Num 0) (t' ! (nrows64 t' - 1) ! j)"
      by (simp add: not_f_lt_zero_iff)
    with k opt ne show "(\<exists>k. iterations64 k t = Some t') \<and>
      simplexTableau64 t' = Inr (None, None, True, True) \<and> t' \<noteq> [] \<and>
      (\<forall>j<length (last t') - 1.
          t' ! (nrows64 t' - 1) ! j = NaN \<or> f_le (Num 0) (t' ! (nrows64 t' - 1) ! j))"
      by blast
  qed
next
  show "\<forall>t t'. simplexAlgorithmTableau t = Some (Inr (t', True, False)) \<longrightarrow>
      (\<exists>k. iterations k t = Some t') \<and>
      simplexTableau t' = Inr (None, None, True, True) \<and> t' \<noteq> [] \<and>
      (\<forall>j<length (last t') - 1. 0 \<le> t' ! (nrows t' - 1) ! j)"
    using driver_optimal by blast
qed

theorem optimal_certificate_witness:
  "simplexAlgorithmTableau64 nan_costs = Some (Inr (nan_costs_final, True, False)) \<and>
   simplexTableau64 nan_costs_final = Inr (None, None, True, True) \<and>
   (nan_costs_final ! 2 ! 3 = NaN \<or> f_le (Num 0) (nan_costs_final ! 2 ! 3)) \<and>
   simplexAlgorithmTableau exercise1 = Some (Inr (exercise1_final, True, False)) \<and>
   simplexTableau exercise1_final = Inr (None, None, True, True) \<and>
   0 \<le> exercise1_final ! 3 ! 3"
proof -
  from optimal_certificate[THEN conjunct1, rule_format, OF nan_costs_run] have
    opt64: "simplexTableau64 nan_costs_final = Inr (None, None, True, True)"
    and nn64: "\<forall>j<length (last nan_costs_final) - 1.
               nan_costs_final ! (nrows64 nan_costs_final - 1) ! j = NaN \<or>
               f_le (Num 0) (nan_costs_final ! (nrows64 nan_costs_final - 1) ! j)"
    by blast+
  have "3 < length (last nan_costs_final) - 1" by (simp add: nan_costs_final_def)
  with nn64 have "nan_costs_final ! (nrows64 nan_costs_final - 1) ! 3 = NaN \<or>
      f_le (Num 0) (nan_costs_final ! (nrows64 nan_costs_final - 1) ! 3)" by blast
  then have a: "nan_costs_final ! 2 ! 3 = NaN \<or> f_le (Num 0) (nan_costs_final ! 2 ! 3)"
    by (simp add: nrows64_def nan_costs_final_def)
  from optimal_certificate[THEN conjunct2, rule_format, OF exercise1_run] have
    opt: "simplexTableau exercise1_final = Inr (None, None, True, True)"
    and nn: "\<forall>j<length (last exercise1_final) - 1.
               0 \<le> exercise1_final ! (nrows exercise1_final - 1) ! j"
    by blast+
  have "3 < length (last exercise1_final) - 1" by (simp add: exercise1_final_def)
  with nn have "0 \<le> exercise1_final ! (nrows exercise1_final - 1) ! 3" by blast
  then have b: "0 \<le> exercise1_final ! 3 ! 3" by (simp add: nrows_def exercise1_final_def)
  from nan_costs_run opt64 a exercise1_run opt b show ?thesis by blast
qed

theorem nan_reduced_cost_counterexample:
  "round64 big = Num big \<and> round64 (- big) = Num (- big) \<and>
   simplexAlgorithmTableau64 nan_costs = Some (Inr (nan_costs_final, True, False)) \<and>
   nan_costs_final ! 2 ! 0 = NaN \<and> \<not> f_le (Num 0) (nan_costs_final ! 2 ! 0)"
  using round64_big nan_costs_run by (simp add: nan_costs_final_def)



text \<open>
  C3, as the code has it.  On a well-formed tableau whose first negative reduced cost is in
  column \<open>p\<close>, let the ratio of a constraint row \<open>i\<close> with \<open>t[i][p] > 0\<close> be the float
  quotient \<open>t[i][n] / t[i][p]\<close>.  When some such ratio is not \<open>inf\<close> and none is a NaN,
  \<open>simplexTableau\<close> returns the pivot \<open>(p, q)\<close> where \<open>q\<close> is a constraint row with
  \<open>t[q][p] > 0\<close> whose ratio is least among these rows and strictly less than the ratio of
  every such row above it.  In exact arithmetic the ratio is the quotient itself and some
  positive entry is enough.  On the tableau of the notebook of the single iteration the
  answer is column 1, row 1.
\<close>

theorem leaving_row_least_ratio:
  "(\<forall>t m n p i. wellformed64 t \<and> nrows64 t = m + 1 \<and> ncols64 t = n + 1 \<and>
       p < n \<and> f_lt (t ! m ! p) (Num 0) \<and> (\<forall>j<p. \<not> f_lt (t ! m ! j) (Num 0)) \<and>
       i < m \<and> f_lt (Num 0) (t ! i ! p) \<and> f_div (t ! i ! n) (t ! i ! p) \<noteq> PosInf \<and>
       (\<forall>k<m. f_lt (Num 0) (t ! k ! p) \<longrightarrow> f_div (t ! k ! n) (t ! k ! p) \<noteq> NaN) \<longrightarrow>
       (\<exists>q<m. simplexTableau64 t = Inr (Some (int p), Some (int q), False, True) \<and>
          f_lt (Num 0) (t ! q ! p) \<and>
          (\<forall>k<m. f_lt (Num 0) (t ! k ! p) \<longrightarrow>
             f_le (f_div (t ! q ! n) (t ! q ! p)) (f_div (t ! k ! n) (t ! k ! p))) \<and>
          (\<forall>k<q. f_lt (Num 0) (t ! k ! p) \<longrightarrow>
             f_lt (f_div (t ! q ! n) (t ! q ! p)) (f_div (t ! k ! n) (t ! k ! p))))) \<and>
   (\<forall>t m n p i. wellformed t \<and> nrows t = m + 1 \<and> ncols t = n + 1 \<and>
       p < n \<and> t ! m ! p < 0 \<and> (\<forall>j<p. \<not> t ! m ! j < 0) \<and> i < m \<and> t ! i ! p > 0 \<longrightarrow>
       (\<exists>q<m. simplexTableau t = Inr (Some (int p), Some (int q), False, True) \<and>
          t ! q ! p > 0 \<and>
          (\<forall>k<m. t ! k ! p > 0 \<longrightarrow> t ! q ! n / t ! q ! p \<le> t ! k ! n / t ! k ! p) \<and>
          (\<forall>k<q. t ! k ! p > 0 \<longrightarrow> t ! q ! n / t ! q ! p < t ! k ! n / t ! k ! p))) \<and>
   simplexTableau64
     [[Num 1, Num (- 1), Num 1, Num 0, Num 2],
      [Num 0, Num 2, Num (- 1), Num 1, Num 4],
      [Num 0, Num (- 3), Num 2, Num 0, Num 4]] = Inr (Some 1, Some 1, False, True) \<and>
   simplexTableau [[1, -1, 1, 0, 2], [0, 2, -1, 1, 4], [0, -3, 2, 0, 4]] =
     Inr (Some 1, Some 1, False, True)"
proof (intro conjI)
  show "\<forall>t m n p i. wellformed64 t \<and> nrows64 t = m + 1 \<and> ncols64 t = n + 1 \<and>
       p < n \<and> f_lt (t ! m ! p) (Num 0) \<and> (\<forall>j<p. \<not> f_lt (t ! m ! j) (Num 0)) \<and>
       i < m \<and> f_lt (Num 0) (t ! i ! p) \<and> f_div (t ! i ! n) (t ! i ! p) \<noteq> PosInf \<and>
       (\<forall>k<m. f_lt (Num 0) (t ! k ! p) \<longrightarrow> f_div (t ! k ! n) (t ! k ! p) \<noteq> NaN) \<longrightarrow>
       (\<exists>q<m. simplexTableau64 t = Inr (Some (int p), Some (int q), False, True) \<and>
          f_lt (Num 0) (t ! q ! p) \<and>
          (\<forall>k<m. f_lt (Num 0) (t ! k ! p) \<longrightarrow>
             f_le (f_div (t ! q ! n) (t ! q ! p)) (f_div (t ! k ! n) (t ! k ! p))) \<and>
          (\<forall>k<q. f_lt (Num 0) (t ! k ! p) \<longrightarrow>
             f_lt (f_div (t ! q ! n) (t ! q ! p)) (f_div (t ! k ! n) (t ! k ! p))))"
  proof (intro allI impI)
    fix t :: tableau64 and m n p i
    assume "wellformed64 t \<and> nrows64 t = m + 1 \<and> ncols64 t = n + 1 \<and>
       p < n \<and> f_lt (t ! m ! p) (Num 0) \<and> (\<forall>j<p. \<not> f_lt (t ! m ! j) (Num 0)) \<and>
       i < m \<and> f_lt (Num 0) (t ! i ! p) \<and> f_div (t ! i ! n) (t ! i ! p) \<noteq> PosInf \<and>
       (\<forall>k<m. f_lt (Num 0) (t ! k ! p) \<longrightarrow> f_div (t ! k ! n) (t ! k ! p) \<noteq> NaN)"
    then have wf: "wellformed64 t" and shape: "nrows64 t = m + 1" "ncols64 t = n + 1"
      and p: "p < n" "f_lt (t ! m ! p) (Num 0)" "\<forall>j<p. \<not> f_lt (t ! m ! j) (Num 0)"
      and i: "i < m" "f_lt (Num 0) (t ! i ! p)" "f_div (t ! i ! n) (t ! i ! p) \<noteq> PosInf"
      and nonan: "\<forall>k<m. f_lt (Num 0) (t ! k ! p) \<longrightarrow> f_div (t ! k ! n) (t ! k ! p) \<noteq> NaN"
      by simp_all
    note d = wellformed64D[OF wf shape]
    show "\<exists>q<m. simplexTableau64 t = Inr (Some (int p), Some (int q), False, True) \<and>
          f_lt (Num 0) (t ! q ! p) \<and>
          (\<forall>k<m. f_lt (Num 0) (t ! k ! p) \<longrightarrow>
             f_le (f_div (t ! q ! n) (t ! q ! p)) (f_div (t ! k ! n) (t ! k ! p))) \<and>
          (\<forall>k<q. f_lt (Num 0) (t ! k ! p) \<longrightarrow>
             f_lt (f_div (t ! q ! n) (t ! q ! p)) (f_div (t ! k ! n) (t ! k ! p)))"
      by (rule simplexTableau64_pivot[OF d(1) shape d(2) p i nonan])
  qed
next
  show "\<forall>t m n p i. wellformed t \<and> nrows t = m + 1 \<and> ncols t = n + 1 \<and>
       p < n \<and> t ! m ! p < 0 \<and> (\<forall>j<p. \<not> t ! m ! j < 0) \<and> i < m \<and> t ! i ! p > 0 \<longrightarrow>
       (\<exists>q<m. simplexTableau t = Inr (Some (int p), Some (int q), False, True) \<and>
          t ! q ! p > 0 \<and>
          (\<forall>k<m. t ! k ! p > 0 \<longrightarrow> t ! q ! n / t ! q ! p \<le> t ! k ! n / t ! k ! p) \<and>
          (\<forall>k<q. t ! k ! p > 0 \<longrightarrow> t ! q ! n / t ! q ! p < t ! k ! n / t ! k ! p))"
  proof (intro allI impI)
    fix t :: tableau and m n p i
    assume "wellformed t \<and> nrows t = m + 1 \<and> ncols t = n + 1 \<and>
       p < n \<and> t ! m ! p < 0 \<and> (\<forall>j<p. \<not> t ! m ! j < 0) \<and> i < m \<and> t ! i ! p > 0"
    then have wf: "wellformed t" and shape: "nrows t = m + 1" "ncols t = n + 1"
      and p: "p < n" "t ! m ! p < 0" "\<forall>j<p. \<not> t ! m ! j < 0" and i: "i < m" "t ! i ! p > 0"
      by simp_all
    note d = wellformedD[OF wf shape]
    show "\<exists>q<m. simplexTableau t = Inr (Some (int p), Some (int q), False, True) \<and>
          t ! q ! p > 0 \<and>
          (\<forall>k<m. t ! k ! p > 0 \<longrightarrow> t ! q ! n / t ! q ! p \<le> t ! k ! n / t ! k ! p) \<and>
          (\<forall>k<q. t ! k ! p > 0 \<longrightarrow> t ! q ! n / t ! q ! p < t ! k ! n / t ! k ! p)"
      by (rule simplexTableau_pivot[OF d(1) shape d(2) p i])
  qed
next
  show "simplexTableau64
     [[Num 1, Num (- 1), Num 1, Num 0, Num 2],
      [Num 0, Num 2, Num (- 1), Num 1, Num 4],
      [Num 0, Num (- 3), Num 2, Num 0, Num 4]] = Inr (Some 1, Some 1, False, True)"
    using iteration_tableau64_decision by (simp add: iteration_tableau64_def)
next
  show "simplexTableau [[1, -1, 1, 0, 2], [0, 2, -1, 1, 4], [0, -3, 2, 0, 4]] =
     Inr (Some 1, Some 1, False, True)"
    using iteration_tableau_decision by (simp add: iteration_tableau_def)
qed

theorem leaving_row_least_ratio_witness:
  "wellformed64 iteration_tableau64 \<and> f_lt (iteration_tableau64 ! 2 ! 1) (Num 0) \<and>
   f_lt (Num 0) (iteration_tableau64 ! 1 ! 1) \<and>
   f_div (iteration_tableau64 ! 1 ! 4) (iteration_tableau64 ! 1 ! 1) = Num 2 \<and>
   (\<exists>q<2. simplexTableau64 iteration_tableau64 = Inr (Some 1, Some (int q), False, True) \<and>
      f_lt (Num 0) (iteration_tableau64 ! q ! 1)) \<and>
   wellformed iteration_tableau \<and> iteration_tableau ! 2 ! 1 < 0 \<and>
   iteration_tableau ! 1 ! 1 > 0 \<and>
   (\<exists>q<2. simplexTableau iteration_tableau = Inr (Some 1, Some (int q), False, True) \<and>
      iteration_tableau ! q ! 1 > 0)"
proof -
  have quot: "f_div (iteration_tableau64 ! 1 ! 4) (iteration_tableau64 ! 1 ! 1) = Num 2"
    by (simp add: iteration_tableau64_def round64_two)
  have nonan: "\<forall>k<2. f_lt (Num 0) (iteration_tableau64 ! k ! 1) \<longrightarrow>
      f_div (iteration_tableau64 ! k ! 4) (iteration_tableau64 ! k ! 1) \<noteq> NaN"
    by (auto simp add: iteration_tableau64_def round64_two less_Suc_eq numeral_2_eq_2)
  have h64: "wellformed64 iteration_tableau64 \<and> nrows64 iteration_tableau64 = 2 + 1 \<and>
      ncols64 iteration_tableau64 = 4 + 1 \<and> (1::nat) < 4 \<and>
      f_lt (iteration_tableau64 ! 2 ! 1) (Num 0) \<and>
      (\<forall>j<1. \<not> f_lt (iteration_tableau64 ! 2 ! j) (Num 0)) \<and> (1::nat) < 2 \<and>
      f_lt (Num 0) (iteration_tableau64 ! 1 ! 1) \<and>
      f_div (iteration_tableau64 ! 1 ! 4) (iteration_tableau64 ! 1 ! 1) \<noteq> PosInf \<and>
      (\<forall>k<2. f_lt (Num 0) (iteration_tableau64 ! k ! 1) \<longrightarrow>
        f_div (iteration_tableau64 ! k ! 4) (iteration_tableau64 ! k ! 1) \<noteq> NaN)"
    using wellformed64_iteration_tableau64 quot nonan
    by (simp add: iteration_tableau64_def nrows64_def ncols64_def)
  from leaving_row_least_ratio[THEN conjunct1, rule_format, OF h64]
  have a: "\<exists>q<2. simplexTableau64 iteration_tableau64 = Inr (Some 1, Some (int q), False, True) \<and>
      f_lt (Num 0) (iteration_tableau64 ! q ! 1)"
    by auto
  have h: "wellformed iteration_tableau \<and> nrows iteration_tableau = 2 + 1 \<and>
      ncols iteration_tableau = 4 + 1 \<and> (1::nat) < 4 \<and> iteration_tableau ! 2 ! 1 < 0 \<and>
      (\<forall>j<1. \<not> iteration_tableau ! 2 ! j < 0) \<and> (1::nat) < 2 \<and> iteration_tableau ! 1 ! 1 > 0"
    using wellformed_iteration_tableau
    by (simp add: iteration_tableau_def nrows_def ncols_def)
  from leaving_row_least_ratio[THEN conjunct2, THEN conjunct1, rule_format, OF h]
  have b: "\<exists>q<2. simplexTableau iteration_tableau = Inr (Some 1, Some (int q), False, True) \<and>
      iteration_tableau ! q ! 1 > 0"
    by auto
  from h64 quot a h b show ?thesis by blast
qed

theorem ratios_overflow_counterexample:
  "round64 huge = Num huge \<and> wellformed64 ratios_overflow \<and>
   f_lt (ratios_overflow ! 2 ! 0) (Num 0) \<and>
   f_lt (Num 0) (ratios_overflow ! 0 ! 0) \<and> f_lt (Num 0) (ratios_overflow ! 1 ! 0) \<and>
   simplexTableau64 ratios_overflow = Inr (None, None, False, False)"
  using round64_huge wellformed64_ratios_overflow ratios_overflow_unbounded
  by (simp add: ratios_overflow_def)

text \<open>
  C4, as the code has it.  On a well-formed tableau \<open>simplexTableau\<close> answers Unbounded
  exactly when there is a negative reduced cost and, in the column \<open>p\<close> of the first one,
  every constraint row \<open>i\<close> has an entry that is not \<open>> 0\<close> or a float quotient
  \<open>t[i][n] / t[i][p]\<close> that is \<open>inf\<close>; in exact arithmetic no quotient is \<open>inf\<close>, and
  the answer is Unbounded exactly when the column has no positive entry in a constraint
  row.  Hence, when the driver, started on a rectangular tableau, returns with status
  Unbounded, \<open>simplexTableau\<close> answers Unbounded on the returned tableau, which has a
  negative reduced cost whose column is of this kind.
\<close>

theorem unbounded_certificate:
  "(\<forall>t m n. wellformed64 t \<and> nrows64 t = m + 1 \<and> ncols64 t = n + 1 \<longrightarrow>
       (simplexTableau64 t = Inr (None, None, False, False) \<longleftrightarrow>
        (\<exists>p<n. f_lt (t ! m ! p) (Num 0) \<and> (\<forall>j<p. \<not> f_lt (t ! m ! j) (Num 0)) \<and>
           (\<forall>k<m. \<not> f_lt (Num 0) (t ! k ! p) \<or>
              f_div (t ! k ! n) (t ! k ! p) = PosInf)))) \<and>
   (\<forall>t t'. rectangular64 t \<and>
       simplexAlgorithmTableau64 t = Some (Inr (t', False, True)) \<longrightarrow>
       simplexTableau64 t' = Inr (None, None, False, False) \<and>
       (\<exists>p<ncols64 t' - 1. f_lt (t' ! (nrows64 t' - 1) ! p) (Num 0) \<and>
          (\<forall>j<p. \<not> f_lt (t' ! (nrows64 t' - 1) ! j) (Num 0)) \<and>
          (\<forall>k<nrows64 t' - 1. \<not> f_lt (Num 0) (t' ! k ! p) \<or>
             f_div (t' ! k ! (ncols64 t' - 1)) (t' ! k ! p) = PosInf))) \<and>
   (\<forall>t m n. wellformed t \<and> nrows t = m + 1 \<and> ncols t = n + 1 \<longrightarrow>
       (simplexTableau t = Inr (None, None, False, False) \<longleftrightarrow>
        (\<exists>p<n. t ! m ! p < 0 \<and> (\<forall>j<p. \<not> t ! m ! j < 0) \<and> (\<forall>k<m. \<not> t ! k ! p > 0)))) \<and>
   (\<forall>t t'. rectangular t \<and> simplexAlgorithmTableau t = Some (Inr (t', False, True)) \<longrightarrow>
       simplexTableau t' = Inr (None, None, False, False) \<and>
       (\<exists>p<ncols t' - 1. t' ! (nrows t' - 1) ! p < 0 \<and>
          (\<forall>j<p. \<not> t' ! (nrows t' - 1) ! j < 0) \<and> (\<forall>k<nrows t' - 1. \<not> t' ! k ! p > 0)))"
proof (intro conjI)
  show "\<forall>t m n. wellformed64 t \<and> nrows64 t = m + 1 \<and> ncols64 t = n + 1 \<longrightarrow>
       (simplexTableau64 t = Inr (None, None, False, False) \<longleftrightarrow>
        (\<exists>p<n. f_lt (t ! m ! p) (Num 0) \<and> (\<forall>j<p. \<not> f_lt (t ! m ! j) (Num 0)) \<and>
           (\<forall>k<m. \<not> f_lt (Num 0) (t ! k ! p) \<or>
              f_div (t ! k ! n) (t ! k ! p) = PosInf)))"
  proof (intro allI impI)
    fix t :: tableau64 and m n
    assume "wellformed64 t \<and> nrows64 t = m + 1 \<and> ncols64 t = n + 1"
    then have wf: "wellformed64 t" and shape: "nrows64 t = m + 1" "ncols64 t = n + 1"
      by simp_all
    note d = wellformed64D[OF wf shape]
    show "simplexTableau64 t = Inr (None, None, False, False) \<longleftrightarrow>
        (\<exists>p<n. f_lt (t ! m ! p) (Num 0) \<and> (\<forall>j<p. \<not> f_lt (t ! m ! j) (Num 0)) \<and>
           (\<forall>k<m. \<not> f_lt (Num 0) (t ! k ! p) \<or>
              f_div (t ! k ! n) (t ! k ! p) = PosInf))"
      by (rule simplexTableau64_unbounded_iff[OF d(1) shape d(2)])
  qed
next
  show "\<forall>t t'. rectangular64 t \<and>
       simplexAlgorithmTableau64 t = Some (Inr (t', False, True)) \<longrightarrow>
       simplexTableau64 t' = Inr (None, None, False, False) \<and>
       (\<exists>p<ncols64 t' - 1. f_lt (t' ! (nrows64 t' - 1) ! p) (Num 0) \<and>
          (\<forall>j<p. \<not> f_lt (t' ! (nrows64 t' - 1) ! j) (Num 0)) \<and>
          (\<forall>k<nrows64 t' - 1. \<not> f_lt (Num 0) (t' ! k ! p) \<or>
             f_div (t' ! k ! (ncols64 t' - 1)) (t' ! k ! p) = PosInf))"
    using driver64_unbounded_column by blast
next
  show "\<forall>t m n. wellformed t \<and> nrows t = m + 1 \<and> ncols t = n + 1 \<longrightarrow>
       (simplexTableau t = Inr (None, None, False, False) \<longleftrightarrow>
        (\<exists>p<n. t ! m ! p < 0 \<and> (\<forall>j<p. \<not> t ! m ! j < 0) \<and> (\<forall>k<m. \<not> t ! k ! p > 0)))"
  proof (intro allI impI)
    fix t :: tableau and m n
    assume "wellformed t \<and> nrows t = m + 1 \<and> ncols t = n + 1"
    then have wf: "wellformed t" and shape: "nrows t = m + 1" "ncols t = n + 1" by simp_all
    note d = wellformedD[OF wf shape]
    show "simplexTableau t = Inr (None, None, False, False) \<longleftrightarrow>
        (\<exists>p<n. t ! m ! p < 0 \<and> (\<forall>j<p. \<not> t ! m ! j < 0) \<and> (\<forall>k<m. \<not> t ! k ! p > 0))"
      by (rule simplexTableau_unbounded_iff[OF d(1) shape d(2)])
  qed
next
  show "\<forall>t t'. rectangular t \<and> simplexAlgorithmTableau t = Some (Inr (t', False, True)) \<longrightarrow>
       simplexTableau t' = Inr (None, None, False, False) \<and>
       (\<exists>p<ncols t' - 1. t' ! (nrows t' - 1) ! p < 0 \<and>
          (\<forall>j<p. \<not> t' ! (nrows t' - 1) ! j < 0) \<and> (\<forall>k<nrows t' - 1. \<not> t' ! k ! p > 0))"
    using driver_unbounded_column by blast
qed

theorem unbounded_certificate_witness:
  "wellformed64 ratio_overflow \<and> rectangular64 ratio_overflow \<and>
   simplexAlgorithmTableau64 ratio_overflow = Some (Inr (ratio_overflow, False, True)) \<and>
   simplexTableau64 ratio_overflow = Inr (None, None, False, False) \<and>
   (\<exists>p<1. f_lt (ratio_overflow ! 1 ! p) (Num 0) \<and>
      (\<forall>k<1. \<not> f_lt (Num 0) (ratio_overflow ! k ! p) \<or>
         f_div (ratio_overflow ! k ! 1) (ratio_overflow ! k ! p) = PosInf)) \<and>
   wellformed exercise3 \<and> rectangular exercise3 \<and>
   simplexAlgorithmTableau exercise3 = Some (Inr (exercise3, False, True)) \<and>
   simplexTableau exercise3 = Inr (None, None, False, False) \<and>
   (\<exists>p<2. exercise3 ! 1 ! p < 0 \<and> (\<forall>k<1. \<not> exercise3 ! k ! p > 0))"
proof -
  have shape64: "nrows64 ratio_overflow = 1 + 1" "ncols64 ratio_overflow = 1 + 1"
    by (simp_all add: ratio_overflow_def nrows64_def ncols64_def)
  have rect64: "rectangular64 ratio_overflow"
    using wellformed64_ratio_overflow by (simp add: wellformed64_def)
  from unbounded_certificate[THEN conjunct2, THEN conjunct1, rule_format,
      of ratio_overflow ratio_overflow] rect64 ratio_overflow_run
  have unb64: "simplexTableau64 ratio_overflow = Inr (None, None, False, False)" by blast
  from unbounded_certificate[THEN conjunct1, rule_format, of ratio_overflow 1 1]
    wellformed64_ratio_overflow shape64 unb64
  have "\<exists>p<1. f_lt (ratio_overflow ! 1 ! p) (Num 0) \<and>
          (\<forall>j<p. \<not> f_lt (ratio_overflow ! 1 ! j) (Num 0)) \<and>
          (\<forall>k<1. \<not> f_lt (Num 0) (ratio_overflow ! k ! p) \<or>
             f_div (ratio_overflow ! k ! 1) (ratio_overflow ! k ! p) = PosInf)"
    by blast
  then have a: "\<exists>p<1. f_lt (ratio_overflow ! 1 ! p) (Num 0) \<and>
      (\<forall>k<1. \<not> f_lt (Num 0) (ratio_overflow ! k ! p) \<or>
         f_div (ratio_overflow ! k ! 1) (ratio_overflow ! k ! p) = PosInf)"
    by blast
  have shape: "nrows exercise3 = 1 + 1" "ncols exercise3 = 2 + 1"
    by (simp_all add: exercise3_def nrows_def ncols_def)
  have rect: "rectangular exercise3" using wellformed_exercise3 by (simp add: wellformed_def)
  from unbounded_certificate[THEN conjunct2, THEN conjunct2, THEN conjunct2, rule_format,
      of exercise3 exercise3] rect exercise3_run
  have unb: "simplexTableau exercise3 = Inr (None, None, False, False)" by blast
  from unbounded_certificate[THEN conjunct2, THEN conjunct2, THEN conjunct1, rule_format,
      of exercise3 1 2] wellformed_exercise3 shape unb
  have "\<exists>p<2. exercise3 ! 1 ! p < 0 \<and> (\<forall>j<p. \<not> exercise3 ! 1 ! j < 0) \<and>
          (\<forall>k<1. \<not> exercise3 ! k ! p > 0)"
    by blast
  then have b: "\<exists>p<2. exercise3 ! 1 ! p < 0 \<and> (\<forall>k<1. \<not> exercise3 ! k ! p > 0)" by blast
  from wellformed64_ratio_overflow rect64 ratio_overflow_run unb64 a
    wellformed_exercise3 rect exercise3_run unb b
  show ?thesis by blast
qed

theorem ratio_overflow_counterexample:
  "round64 huge = Num huge \<and> wellformed64 ratio_overflow \<and>
   f_lt (ratio_overflow ! 1 ! 0) (Num 0) \<and> f_lt (Num 0) (ratio_overflow ! 0 ! 0) \<and>
   simplexTableau64 ratio_overflow = Inr (None, None, False, False) \<and>
   simplexAlgorithmTableau64 ratio_overflow = Some (Inr (ratio_overflow, False, True))"
  using round64_huge wellformed64_ratio_overflow ratio_overflow_unbounded ratio_overflow_run
  by (simp add: ratio_overflow_def)




text \<open>
  C6, as the code has it.  For a row index and a column index that are not negative,
  \<open>pivoting\<close> raises its own exception exactly when the row index is not below the
  number of rows (all \<open>m + 1\<close> of them: the objective row is accepted), or the column
  index is not below the number of columns (all \<open>n + 1\<close>: the right-hand side column is
  accepted), or the entry at the position is below the machine epsilon in magnitude;
  otherwise it returns a tableau.
\<close>

theorem pivoting_invalid_iff:
  assumes "rectangular t" and "0 \<le> q" and "0 \<le> p"
  shows "(pivoting t p q = Inl InvalidPivot \<longleftrightarrow>
            int (nrows t) \<le> q \<or> int (ncols t) \<le> p \<or> \<bar>t ! nat q ! nat p\<bar> < eps) \<and>
         (pivoting t p q \<noteq> Inl InvalidPivot \<longrightarrow> (\<exists>t'. pivoting t p q = Inr t'))"
  using assms(2,3) by (auto simp: pivoting_def Let_def np_index_def)

theorem pivoting_invalid_iff_witness:
  "rectangular [[1, 0], [2, 1]] \<and> (0::int) \<le> 1 \<and> (0::int) \<le> 0 \<and>
   pivoting [[1, 0], [2, 1]] 0 1 \<noteq> Inl InvalidPivot \<and>
   (\<exists>t'. pivoting [[1, 0], [2, 1]] 0 1 = Inr t')"
proof -
  have rect: "rectangular [[1, 0], [2, 1]]" by (simp add: rectangular_def ncols_def)
  have "\<not> (int (nrows [[1, 0], [2, 1]]) \<le> 1 \<or> int (ncols [[1, 0], [2, 1]]) \<le> 0 \<or>
           \<bar>[[1, 0], [2, 1]] ! nat 1 ! nat 0\<bar> < eps)"
    by (simp add: nrows_def ncols_def eps_def)
  with pivoting_invalid_iff[OF rect, of 1 0] rect show ?thesis by simp
qed

theorem pivoting_objective_row_counterexample:
  "nrows [[1, 0], [2, 1]] = 1 + 1 \<and>
   pivoting [[1, 0], [2, 1]] 0 1 = Inr [[0, - (1 / 2)], [1, 1 / 2]]"
  using objective_row_pivot by (simp add: nrows_def)

text \<open>
  C7, as the code has it.  No routine checks the shape of its argument.  On an array with
  fewer than two rows or fewer than two columns \<open>simplexTableau\<close> raises \<open>IndexError\<close>
  when there is no row, raises \<open>ValueError\<close> when the last row has a negative entry
  before its last one (the array then has one row and \<open>argmin\<close> gets an empty
  sequence), and answers Optimal otherwise; the driver ends in its first pass with the
  same exception or with the array unchanged and status Optimal; \<open>pivoting\<close> returns a
  tableau at every position inside the array whose entry is not below the machine epsilon.
\<close>

theorem no_shape_check:
  assumes "rectangular t" and "nrows t < 2 \<or> ncols t < 2"
  shows "simplexTableau t =
           (if t = [] then Inl IndexError
            else if \<exists>c\<in>set (butlast (last t)). c < 0 then Inl ValueError
            else Inr (None, None, True, True)) \<and>
         simplexAlgorithmTableau t =
           (if t = [] then Some (Inl IndexError)
            else if \<exists>c\<in>set (butlast (last t)). c < 0 then Some (Inl ValueError)
            else Some (Inr (t, True, False))) \<and>
         (\<forall>p q. q < nrows t \<and> p < ncols t \<and> eps \<le> \<bar>t ! q ! p\<bar> \<longrightarrow>
            (\<exists>t'. pivoting t (int p) (int q) = Inr t'))"
proof (intro conjI allI impI)
  show "simplexTableau t =
           (if t = [] then Inl IndexError
            else if \<exists>c\<in>set (butlast (last t)). c < 0 then Inl ValueError
            else Inr (None, None, True, True))"
    by (rule simplexTableau_malformed[OF assms])
  show "simplexAlgorithmTableau t =
           (if t = [] then Some (Inl IndexError)
            else if \<exists>c\<in>set (butlast (last t)). c < 0 then Some (Inl ValueError)
            else Some (Inr (t, True, False)))"
    by (rule driver_malformed[OF assms])
next
  fix p q
  assume "q < nrows t \<and> p < ncols t \<and> eps \<le> \<bar>t ! q ! p\<bar>"
  then have "q < nrows t" "p < ncols t" "eps \<le> \<bar>t ! q ! p\<bar>" by simp_all
  from pivoting_in_range[OF this] show "\<exists>t'. pivoting t (int p) (int q) = Inr t'" by blast
qed

theorem no_shape_check_witness:
  "rectangular [[1, 0]] \<and> nrows [[1, 0]] < 2 \<and>
   simplexTableau [[1, 0]] = Inr (None, None, True, True) \<and>
   simplexAlgorithmTableau [[1, 0]] = Some (Inr ([[1, 0]], True, False)) \<and>
   (\<exists>t'. pivoting [[1, 0]] 0 0 = Inr t')"
proof -
  have rect: "rectangular [[1, 0]]" by (simp add: rectangular_def ncols_def)
  have small: "nrows [[1, 0]] < 2 \<or> ncols [[1, 0]] < 2" by (simp add: nrows_def)
  have pos: "(0::nat) < nrows [[1, 0]] \<and> (0::nat) < ncols [[1, 0]] \<and> eps \<le> \<bar>[[1, 0]] ! 0 ! 0\<bar>"
    by (simp add: nrows_def ncols_def eps_def)
  note inst = no_shape_check[OF rect small]
  from inst have "simplexTableau [[1, 0]] = Inr (None, None, True, True)" by simp
  moreover from inst have "simplexAlgorithmTableau [[1, 0]] = Some (Inr ([[1, 0]], True, False))"
    by simp
  moreover from inst pos have "\<exists>t'. pivoting [[1, 0]] (int 0) (int 0) = Inr t'" by blast
  ultimately show ?thesis using rect by (simp add: nrows_def)
qed

theorem one_row_accepted_counterexample:
  "nrows [[1, 0]] < 2 \<and> simplexTableau [[1, 0]] = Inr (None, None, True, True) \<and>
   simplexAlgorithmTableau [[1, 0]] = Some (Inr ([[1, 0]], True, False)) \<and>
   nrows [[2]] < 2 \<and> pivoting [[2]] 0 0 = Inr [[1]]"
proof -
  have "iteration [[1, 0]] = None" by (simp add: iteration_def one_row_optimal)
  from driver_last_pass[OF this]
  have "simplexAlgorithmTableau [[1, 0]] = Some (Inr ([[1, 0]], True, False))"
    by (simp add: one_row_optimal)
  with one_row_optimal one_entry_pivot show ?thesis by (simp add: nrows_def)
qed


text \<open>
  C9, as the code has it.  When \<open>simplexTableau\<close> returns a pivot \<open>(p, q)\<close> on a
  well-formed tableau with \<open>m + 1\<close> rows and \<open>n + 1\<close> columns, then \<open>0 \<le> p < n\<close>,
  \<open>0 \<le> q < m\<close> and the entry at the position is positive; \<open>pivoting\<close> at that
  position raises its exception when the entry is below the machine epsilon, and otherwise
  returns a well-formed tableau of the same shape.  So a run of the driver on a well-formed
  tableau that returns ends with status Optimal, with status Unbounded, or with the
  exception of \<open>pivoting\<close> for a positive pivot below the machine epsilon, chosen by
  \<open>simplexTableau\<close> on a tableau that the run reached.
\<close>

theorem selected_pivot_position:
  "(\<forall>t m n p q opt bounded.
      wellformed t \<and> nrows t = m + 1 \<and> ncols t = n + 1 \<and>
      simplexTableau t = Inr (Some p, Some q, opt, bounded) \<longrightarrow>
      0 \<le> p \<and> p < int n \<and> 0 \<le> q \<and> q < int m \<and> t ! nat q ! nat p > 0 \<and>
      (if t ! nat q ! nat p < eps then pivoting t p q = Inl InvalidPivot
       else (\<exists>t'. pivoting t p q = Inr t' \<and> wellformed t' \<and>
               nrows t' = nrows t \<and> ncols t' = ncols t))) \<and>
   (\<forall>t r. wellformed t \<and> simplexAlgorithmTableau t = Some r \<longrightarrow>
      (\<exists>t'. r = Inr (t', True, False)) \<or> (\<exists>t'. r = Inr (t', False, True)) \<or>
      r = Inl InvalidPivot \<and>
      (\<exists>k t' p q. iterations k t = Some t' \<and>
         simplexTableau t' = Inr (Some (int p), Some (int q), False, True) \<and>
         0 < t' ! q ! p \<and> t' ! q ! p < eps))"
proof (rule conjI)
  show "\<forall>t m n p q opt bounded.
      wellformed t \<and> nrows t = m + 1 \<and> ncols t = n + 1 \<and>
      simplexTableau t = Inr (Some p, Some q, opt, bounded) \<longrightarrow>
      0 \<le> p \<and> p < int n \<and> 0 \<le> q \<and> q < int m \<and> t ! nat q ! nat p > 0 \<and>
      (if t ! nat q ! nat p < eps then pivoting t p q = Inl InvalidPivot
       else (\<exists>t'. pivoting t p q = Inr t' \<and> wellformed t' \<and>
               nrows t' = nrows t \<and> ncols t' = ncols t))"
  proof (intro allI impI)
    fix t :: tableau and m n p q opt bounded
    assume "wellformed t \<and> nrows t = m + 1 \<and> ncols t = n + 1 \<and>
      simplexTableau t = Inr (Some p, Some q, opt, bounded)"
    then have wf: "wellformed t" and shape: "nrows t = m + 1" "ncols t = n + 1"
      and res: "simplexTableau t = Inr (Some p, Some q, opt, bounded)" by simp_all
    note d = wellformedD[OF wf shape]
    from simplexTableau_pivot_position[OF d(1) shape d(2) res] obtain p' q' where
      pq: "p = int p'" "q = int q'" "p' < n" "q' < m" "t ! q' ! p' > 0" by blast
    have "q' < nrows t" "p' < ncols t" using pq(3,4) shape by simp_all
    from pivoting_positive_entry[OF wf this pq(5)]
    have "if t ! q' ! p' < eps then pivoting t (int p') (int q') = Inl InvalidPivot
          else (\<exists>t'. pivoting t (int p') (int q') = Inr t' \<and> wellformed t' \<and>
                  nrows t' = nrows t \<and> ncols t' = ncols t)" .
    with pq show "0 \<le> p \<and> p < int n \<and> 0 \<le> q \<and> q < int m \<and> t ! nat q ! nat p > 0 \<and>
        (if t ! nat q ! nat p < eps then pivoting t p q = Inl InvalidPivot
         else (\<exists>t'. pivoting t p q = Inr t' \<and> wellformed t' \<and>
                 nrows t' = nrows t \<and> ncols t' = ncols t))"
      by simp
  qed
next
  show "\<forall>t r. wellformed t \<and> simplexAlgorithmTableau t = Some r \<longrightarrow>
      (\<exists>t'. r = Inr (t', True, False)) \<or> (\<exists>t'. r = Inr (t', False, True)) \<or>
      r = Inl InvalidPivot \<and>
      (\<exists>k t' p q. iterations k t = Some t' \<and>
         simplexTableau t' = Inr (Some (int p), Some (int q), False, True) \<and>
         0 < t' ! q ! p \<and> t' ! q ! p < eps)"
    using driver_outcomes by blast
qed

theorem selected_pivot_position_witness:
  "wellformed iteration_tableau \<and>
   simplexTableau iteration_tableau = Inr (Some 1, Some 1, False, True) \<and>
   iteration_tableau ! 1 ! 1 > 0 \<and> \<not> iteration_tableau ! 1 ! 1 < eps \<and>
   (\<exists>t'. pivoting iteration_tableau 1 1 = Inr t' \<and> wellformed t') \<and>
   wellformed tiny_pivot \<and> simplexAlgorithmTableau tiny_pivot = Some (Inl InvalidPivot) \<and>
   (\<exists>k t' p q. iterations k tiny_pivot = Some t' \<and> 0 < t' ! q ! p \<and> t' ! q ! p < eps)"
proof -
  have h: "wellformed iteration_tableau \<and> nrows iteration_tableau = 2 + 1 \<and>
      ncols iteration_tableau = 4 + 1 \<and>
      simplexTableau iteration_tableau = Inr (Some 1, Some 1, False, True)"
    using wellformed_iteration_tableau iteration_tableau_decision
    by (simp add: iteration_tableau_def nrows_def ncols_def)
  have big: "\<not> iteration_tableau ! 1 ! 1 < eps"
    by (simp add: iteration_tableau_def eps_def)
  from selected_pivot_position[THEN conjunct1, rule_format, OF h] big
  have a: "iteration_tableau ! 1 ! 1 > 0"
    and b: "\<exists>t'. pivoting iteration_tableau 1 1 = Inr t' \<and> wellformed t'"
    by auto
  have "Inl InvalidPivot \<noteq> (Inr (t', True, False) :: error + tableau \<times> bool \<times> bool)" for t'
    by simp
  with selected_pivot_position[THEN conjunct2, rule_format, of tiny_pivot "Inl InvalidPivot"]
    wellformed_tiny_pivot tiny_pivot_run
  have c: "\<exists>k t' p q. iterations k tiny_pivot = Some t' \<and> 0 < t' ! q ! p \<and> t' ! q ! p < eps"
    by blast
  from h a big b c wellformed_tiny_pivot tiny_pivot_run show ?thesis by simp
qed

theorem tiny_pivot_run_counterexample:
  "wellformed tiny_pivot \<and> simplexTableau tiny_pivot = Inr (Some 0, Some 0, False, True) \<and>
   pivoting tiny_pivot 0 0 = Inl InvalidPivot \<and>
   simplexAlgorithmTableau tiny_pivot = Some (Inl InvalidPivot)"
  using wellformed_tiny_pivot tiny_pivot_decision tiny_pivot_rejected tiny_pivot_run by simp

text \<open>
  C10, as the code has it.  At a position inside a (rectangular) tableau whose entry is not
  below the machine epsilon in magnitude, \<open>pivoting\<close> returns a tableau of the same
  shape, and \<open>pivoting\<close> at the same position of that tableau returns it again.  On the
  store, the call adds the new array and leaves the input array as it was.  (An entry that
  is not zero may still be below the machine epsilon; then no tableau is returned.)
\<close>

theorem pivoting_idempotent:
  assumes "rectangular T" and "q < nrows T" and "p < ncols T" and "eps \<le> \<bar>T ! q ! p\<bar>"
    and "a < length s" and "s ! a = T" and "length junk = nrows T"
  shows "\<exists>T'. pivoting T (int p) (int q) = Inr T' \<and> pivoting T' (int p) (int q) = Inr T' \<and>
           nrows T' = nrows T \<and> ncols T' = ncols T \<and> rectangular T' \<and>
           pivoting_store junk s a (int p) (int q) = Inr (s @ [T'], length s) \<and>
           (s @ [T']) ! a = T"
proof -
  from pivoting_in_range[OF assms(2,3,4)] obtain T' where
    T': "pivoting T (int p) (int q) = Inr T'" by blast
  note again = pivoting_again[OF assms(1-4) T']
  note sh = pivoting_shape[OF T' assms(1)]
  have junk: "length junk = nrows (s ! a)" using assms(6,7) by simp
  from pivoting_store_refines[OF assms(5) junk, of p q] T' assms(6)
  have st: "pivoting_store junk s a (int p) (int q) = Inr (s @ [T'], length s)" by simp
  have "(s @ [T']) ! a = T" using assms(5,6) by (simp add: nth_append)
  with T' again sh st show ?thesis by blast
qed

theorem pivoting_idempotent_witness:
  "rectangular exercise1 \<and> eps \<le> \<bar>exercise1 ! 1 ! 0\<bar> \<and>
   (\<exists>T'. pivoting exercise1 0 1 = Inr T' \<and> pivoting T' 0 1 = Inr T' \<and>
      pivoting_store [[], [], [], []] [exercise1] 0 0 1 = Inr ([exercise1, T'], 1))"
proof -
  have rect: "rectangular exercise1" using wellformed_exercise1 by (simp add: wellformed_def)
  have pos: "1 < nrows exercise1" "0 < ncols exercise1"
    by (simp_all add: exercise1_def nrows_def ncols_def)
  have piv: "eps \<le> \<bar>exercise1 ! 1 ! 0\<bar>" by (simp add: exercise1_def eps_def)
  have st: "(0::nat) < length [exercise1]" "[exercise1] ! 0 = exercise1"
    "length [[], [], [], []] = nrows exercise1"
    by (simp_all add: exercise1_def nrows_def)
  from pivoting_idempotent[OF rect pos piv st] obtain T' where
    "pivoting exercise1 (int 0) (int 1) = Inr T'" "pivoting T' (int 0) (int 1) = Inr T'"
    "pivoting_store [[], [], [], []] [exercise1] 0 (int 0) (int 1) =
       Inr ([exercise1] @ [T'], length [exercise1])"
    by blast
  then have "pivoting exercise1 0 1 = Inr T' \<and> pivoting T' 0 1 = Inr T' \<and>
      pivoting_store [[], [], [], []] [exercise1] 0 0 1 = Inr ([exercise1, T'], 1)"
    by simp
  with rect piv show ?thesis by blast
qed

theorem nonzero_pivot_rejected_counterexample:
  "(0::nat) < nrows tiny_pivot - 1 \<and> (0::nat) < ncols tiny_pivot - 1 \<and>
   tiny_pivot ! 0 ! 0 \<noteq> 0 \<and> pivoting tiny_pivot 0 0 = Inl InvalidPivot"
  using tiny_pivot_rejected by (simp add: tiny_pivot_def nrows_def ncols_def)

end
